theory Spec2Isabelle
  imports Complex_Main "HOL-Library.Sublist"
begin

text \<open>
  A shallow embedding of the image-to-polynomial pipeline: edge extraction and
  segmentation (\<^verbatim>\<open>services/imageProcessor.ts\<close>), Douglas-Peucker simplification,
  the linear solver and the least-squares fit (\<^verbatim>\<open>services/mathFitting.ts\<close>), and the
  selection of the longest paths in \<^verbatim>\<open>processImage\<close>.

  Numbers: a JavaScript \<^verbatim>\<open>number\<close> is modelled as an exact real, so rounding, NaN and the
  infinities are outside the model. HOL's division is total (\<open>x / 0 = 0\<close>) where
  JavaScript yields NaN or an infinity; every theorem about a computed value therefore
  carries the hypotheses under which no divisor is zero, and the places where a divisor
  can be zero are discussed where they occur.
\<close>

section \<open>Data model\<close>

text \<open>
  \<^verbatim>\<open>interface Point { x: number; y: number }\<close>.
  JavaScript numbers are modelled as exact reals; the fields are called \<open>px\<close> and
  \<open>py\<close> so that \<open>x\<close> and \<open>y\<close> stay available as variable names.
\<close>

record point =
  px :: real
  py :: real

section \<open>Segmentation of edge points (services/imageProcessor.ts)\<close>

text \<open>
  The body of the \<^verbatim>\<open>for (let i = 1; i < sorted.length; i++)\<close> loop of
  \<^verbatim>\<open>segmentEdges\<close>, followed by the commit of the final path after the loop. The first
  list argument holds \<^verbatim>\<open>sorted[i..]\<close>; \<open>paths\<close> and \<open>currentPath\<close> are the two
  mutable locals. \<open>currentPath\<close> is never empty, so \<open>last\<close> is the element
  \<^verbatim>\<open>currentPath[currentPath.length - 1]\<close>. The locals \<^verbatim>\<open>curr\<close> and \<^verbatim>\<open>last\<close> are
  written \<open>cur\<close> and \<open>lst\<close>.
\<close>

fun segmentLoop :: "real \<Rightarrow> point list \<Rightarrow> point list list \<Rightarrow> point list \<Rightarrow> point list list" where
  "segmentLoop maxGap [] paths currentPath =
     (if length currentPath > 20 then paths @ [currentPath] else paths)"
| "segmentLoop maxGap (cur # remaining) paths currentPath =
     (let lst = last currentPath;
          dist = sqrt ((px cur - px lst) ^ 2 + (py cur - py lst) ^ 2)
      in if dist < maxGap
         then segmentLoop maxGap remaining paths (currentPath @ [cur])
         else segmentLoop maxGap remaining
                (if length currentPath > 20 then paths @ [currentPath] else paths) [cur])"

text \<open>
  \<^verbatim>\<open>segmentEdges(points, maxGap)\<close>, with \<open>maxGap\<close> given (the code defaults it to 10
  when the caller leaves it out). \<^verbatim>\<open>[...points].sort((a, b) => a.x - b.x)\<close> is a stable
  sort by ascending x; \<open>sort_key\<close> is a stable insertion sort.
\<close>

definition segmentEdges :: "point list \<Rightarrow> real \<Rightarrow> point list list" where
  "segmentEdges points maxGap =
     (if length points = 0 then []
      else let sorted = sort_key px points
           in segmentLoop maxGap (tl sorted) [] [hd sorted])"

text \<open>
  The selection in \<^verbatim>\<open>processImage\<close>:
  \<^verbatim>\<open>segmentedPaths.sort((a, b) => b.length - a.length).slice(0, 5)\<close>,
  a stable sort by descending length followed by the first five entries.
\<close>

definition topPaths :: "point list list \<Rightarrow> point list list" where
  "topPaths segmentedPaths = take 5 (sort_key (\<lambda>p. - int (length p)) segmentedPaths)"

section \<open>Edge extraction (services/imageProcessor.ts)\<close>

text \<open>
  The canvas as \<^verbatim>\<open>getEdges\<close> sees it: its width and height, and what
  \<^verbatim>\<open>getContext('2d')\<close> gives: \<open>None\<close> when there is no context, otherwise the RGBA bytes
  of \<^verbatim>\<open>getImageData(0, 0, width, height).data\<close>, four per pixel in row-major order (so the
  list has length \<open>4 * width * height\<close>). The bytes are taken as given: a canvas for
  which the browser refuses \<^verbatim>\<open>getImageData\<close> (zero width or height) is not modelled.
\<close>

record canvas =
  canvas_width :: nat
  canvas_height :: nat
  context2d :: "nat list option"

text \<open>
  \<^verbatim>\<open>for (let i = 0; i < data.length; i += 4) gray[i / 4] = (data[i] + data[i+1] + data[i+2]) / 3\<close>
  on a zero-initialised array of \<open>len\<close> entries: entry \<open>k\<close> is written when
  \<open>4 * k < data.length\<close> and keeps its initial 0 otherwise. (The array is a
  \<^verbatim>\<open>Float32Array\<close>; storing rounds to single precision, which exact reals leave out.)
\<close>

definition grayscale :: "nat list \<Rightarrow> nat \<Rightarrow> real list" where
  "grayscale data len =
     map (\<lambda>k. if 4 * k < length data
              then (real (data ! (4 * k)) + real (data ! (4 * k + 1)) + real (data ! (4 * k + 2))) / 3
              else 0) [0..<len]"

text \<open>The body of the inner loop of \<^verbatim>\<open>getEdges\<close> at pixel \<open>(x, y)\<close>: the points it pushes.\<close>

definition edgeAt :: "real list \<Rightarrow> int \<Rightarrow> real \<Rightarrow> int \<Rightarrow> int \<Rightarrow> point list" where
  "edgeAt gray w threshold y x =
     (let idx = y * w + x;
          gx = gray ! nat (idx + 1) - gray ! nat (idx - 1);
          gy = gray ! nat (idx + w) - gray ! nat (idx - w);
          mag = sqrt (gx * gx + gy * gy)
      in if mag > threshold then [\<lparr>px = of_int x, py = of_int y\<rparr>] else [])"

text \<open>
  \<^verbatim>\<open>getEdges(canvas, threshold)\<close>. The two loops
  \<^verbatim>\<open>for (let y = 1; y < h - 1; y++) for (let x = 1; x < w - 1; x++)\<close> run over the integer
  intervals \<open>[1..h - 2]\<close> and \<open>[1..w - 2]\<close>, which are empty when \<open>h < 3\<close> or \<open>w < 3\<close>.
\<close>

definition getEdges :: "canvas \<Rightarrow> real \<Rightarrow> point list" where
  "getEdges canvas threshold =
     (case context2d canvas of
        None \<Rightarrow> []
      | Some data \<Rightarrow>
          let w = int (canvas_width canvas);
              h = int (canvas_height canvas);
              gray = grayscale data (nat (w * h))
          in concat (map (\<lambda>y. concat (map (edgeAt gray w threshold y) [1..w - 2])) [1..h - 2]))"

section \<open>Douglas-Peucker simplification (services/mathFitting.ts)\<close>

definition findPerpendicularDistance :: "point \<Rightarrow> point \<Rightarrow> point \<Rightarrow> real" where
  "findPerpendicularDistance p p1 p2 =
     (let dx = px p2 - px p1;
          dy = py p2 - py p1
      in \<bar>dy * px p - dx * py p + px p2 * py p1 - py p2 * px p1\<bar> / sqrt (dx * dx + dy * dy))"

text \<open>
  The search loop of \<^verbatim>\<open>simplifyPoints\<close>,
  \<^verbatim>\<open>for (let i = 1; i < points.length - 1; i++)\<close>, on the pair of locals \<open>(dmax, index)\<close>
  that starts as \<open>(0, 0)\<close>.

  When the first and the last point coincide the divisor is 0 and so is the dividend:
  JavaScript computes \<^verbatim>\<open>0 / 0 = NaN\<close>, and \<^verbatim>\<open>NaN > dmax\<close> is false; here \<open>0 / 0 = 0\<close>, and
  \<open>0 > dmax\<close> is false as well, so both leave \<open>(dmax, index)\<close> untouched.
\<close>

definition farthest :: "point list \<Rightarrow> real \<times> nat" where
  "farthest points =
     fold (\<lambda>i (dmax, index).
             let d = findPerpendicularDistance (points ! i) (points ! 0) (points ! (length points - 1))
             in if d > dmax then (d, i) else (dmax, index))
          [1..<length points - 1] (0, 0)"

text \<open>
  \<^verbatim>\<open>simplifyPoints(points, epsilon)\<close>. The recursion has no bound of its own (with a negative
  \<open>epsilon\<close> and \<open>index = 0\<close> the second call gets the whole list again), so the function
  is partial: \<open>None\<close> stands for a call that does not return.
  \<^verbatim>\<open>points.slice(0, index + 1)\<close> is \<open>take (index + 1)\<close>, \<^verbatim>\<open>points.slice(index)\<close> is
  \<open>drop index\<close>, and \<^verbatim>\<open>recursiveResults1.slice(0, -1)\<close> is \<open>butlast\<close>.
\<close>

partial_function (option) simplifyPoints :: "point list \<Rightarrow> real \<Rightarrow> point list option" where
  "simplifyPoints points epsilon =
     (if length points \<le> 2 then Some points
      else if fst (farthest points) > epsilon
        then Option.bind (simplifyPoints (take (snd (farthest points) + 1) points) epsilon)
               (\<lambda>recursiveResults1.
                  Option.bind (simplifyPoints (drop (snd (farthest points)) points) epsilon)
                    (\<lambda>recursiveResults2. Some (butlast recursiveResults1 @ recursiveResults2)))
        else Some [points ! 0, points ! (length points - 1)])"

section \<open>The linear solver (services/mathFitting.ts)\<close>

text \<open>
  \<^verbatim>\<open>solveMatrix(A, B)\<close> works in place on an array of rows \<open>A\<close> and a vector \<open>B\<close>, with
  \<open>n = B.length\<close>; the model passes the pair \<open>(A, B)\<close> through the loops. It reads
  \<open>A[j][k]\<close> for all \<open>j, k < n\<close>, so \<open>A\<close> is expected to have \<open>n\<close> rows of \<open>n\<close>
  entries, as the caller \<^verbatim>\<open>fitPolynomial\<close> builds it.
\<close>

text \<open>The pivot search: \<^verbatim>\<open>let max = i; for (j = i + 1; j < n; j++) if (|A[j][i]| > |A[max][i]|) max = j\<close>.\<close>

definition pivotRow :: "real list list \<Rightarrow> nat \<Rightarrow> nat \<Rightarrow> nat" where
  "pivotRow A n i = fold (\<lambda>j mx. if \<bar>A ! j ! i\<bar> > \<bar>A ! mx ! i\<bar> then j else mx) [i + 1..<n] i"

text \<open>\<^verbatim>\<open>[A[i], A[max]] = [A[max], A[i]]\<close>: both right-hand sides are read before the writes.\<close>

definition swap :: "'a list \<Rightarrow> nat \<Rightarrow> nat \<Rightarrow> 'a list" where
  "swap xs i mx = (xs[i := xs ! mx])[mx := xs ! i]"

text \<open>
  The body of \<^verbatim>\<open>for (let j = i + 1; j < n; j++)\<close>: the factor is computed once, then
  \<open>B[j]\<close> and the entries \<open>A[j][k]\<close> for \<open>k = i, ..., n - 1\<close> are updated.
\<close>

definition eliminateRow :: "nat \<Rightarrow> nat \<Rightarrow> nat \<Rightarrow> real list list \<times> real list \<Rightarrow> real list list \<times> real list" where
  "eliminateRow n i j AB =
     (let A = fst AB; B = snd AB;
          factor = A ! j ! i / A ! i ! i;
          B' = B[j := B ! j - factor * B ! i];
          A' = fold (\<lambda>k M. M[j := (M ! j)[k := M ! j ! k - factor * M ! i ! k]]) [i..<n] A
      in (A', B'))"

text \<open>One round of the outer loop: pivot search, the two swaps, elimination below row \<open>i\<close>.\<close>

definition eliminateColumn :: "nat \<Rightarrow> nat \<Rightarrow> real list list \<times> real list \<Rightarrow> real list list \<times> real list" where
  "eliminateColumn n i AB =
     (let A = fst AB; B = snd AB;
          mx = pivotRow A n i
      in fold (eliminateRow n i) [i + 1..<n] (swap A i mx, swap B i mx))"

text \<open>
  One round of the back-substitution loop:
  \<^verbatim>\<open>sum = 0; for (j = i + 1; j < n; j++) sum += A[i][j] * x[j]; x[i] = (B[i] - sum) / A[i][i]\<close>.
\<close>

definition backStep :: "nat \<Rightarrow> real list list \<Rightarrow> real list \<Rightarrow> nat \<Rightarrow> real list \<Rightarrow> real list" where
  "backStep n A B i xs =
     (let sum = fold (\<lambda>j s. s + A ! i ! j * xs ! j) [i + 1..<n] 0
      in xs[i := (B ! i - sum) / A ! i ! i])"

text \<open>
  \<^verbatim>\<open>solveMatrix\<close>: the elimination for \<open>i = 0, ..., n - 1\<close>, then the back substitution
  for \<open>i = n - 1, ..., 0\<close> on \<^verbatim>\<open>new Array(n).fill(0)\<close>.
\<close>

definition solveMatrix :: "real list list \<Rightarrow> real list \<Rightarrow> real list" where
  "solveMatrix A B =
     (let n = length B;
          AB = fold (eliminateColumn n) [0..<n] (A, B)
      in fold (backStep n (fst AB) (snd AB)) (rev [0..<n]) (replicate n 0))"

section \<open>The least-squares fit (services/mathFitting.ts)\<close>

text \<open>
  \<^verbatim>\<open>interface FittingResult { formula; points; coefficients; type: 'polynomial' | 'sine' }\<close>.
  The fields carry the prefix \<open>r_\<close>, which keeps \<open>points\<close> and \<open>coefficients\<close> free
  for the variables of the code.
\<close>

datatype fitting_type = Polynomial | Sine

record FittingResult =
  r_formula :: string
  r_points :: "point list"
  r_coefficients :: "real list"
  r_type :: fitting_type

text \<open>The decimal digits of a natural number, as a template literal prints \<open>i\<close>.\<close>

fun showNat :: "nat \<Rightarrow> string" where
  "showNat n = (if n < 10 then [char_of (48 + n)] else showNat (n div 10) @ [char_of (48 + n mod 10)])"

text \<open>\<^verbatim>\<open>Array.prototype.join\<close> on strings.\<close>

fun join :: "string \<Rightarrow> string list \<Rightarrow> string" where
  "join sep [] = []"
| "join sep [s] = s"
| "join sep (s # t # ss) = s @ sep @ join sep (t # ss)"

text \<open>
  The callback of \<^verbatim>\<open>coefficients.map((c, i) => ...)\<close>. \<^verbatim>\<open>Number.prototype.toFixed\<close> is a
  library function on floating-point numbers; it is the parameter \<open>toFixed\<close>.
\<close>

definition formulaPart :: "(real \<Rightarrow> nat \<Rightarrow> string) \<Rightarrow> nat \<times> real \<Rightarrow> string" where
  "formulaPart toFixed ic =
     (let i = fst ic; c = snd ic; val = toFixed c 2
      in if i = 0 then val
         else if i = 1 then val @ ''x''
         else val @ ''x^{'' @ showNat i @ ''}'')"

text \<open>
  The sampling loop \<^verbatim>\<open>for (let x = 0; x <= width; x += 5)\<close>, with \<open>curvePoints\<close> as
  accumulator. \<^verbatim>\<open>Math.pow(nx, i)\<close> with a natural exponent is \<open>nx ^ i\<close>; both give 1 for
  \<open>i = 0\<close>.
\<close>

function curveLoop :: "real list \<Rightarrow> real \<Rightarrow> real \<Rightarrow> real \<Rightarrow> point list \<Rightarrow> point list" where
  "curveLoop coefficients width height x curvePoints =
     (if x \<le> width
      then let nx = x / width;
               ny = fold (\<lambda>i ny. ny + coefficients ! i * nx ^ i) [0..<length coefficients] 0
           in curveLoop coefficients width height (x + 5) (curvePoints @ [\<lparr>px = x, py = ny * height\<rparr>])
      else curvePoints)"
  by pat_completeness auto
termination
proof (relation "measure (\<lambda>(coefficients, width, height, x, curvePoints). nat (\<lfloor>width - x\<rfloor> + 1))")
  show "wf (measure (\<lambda>(coefficients :: real list, width, height :: real, x, curvePoints :: point list).
          nat (\<lfloor>width - x\<rfloor> + 1)))"
    by simp
next
  fix coefficients :: "real list" and width height x :: real and curvePoints :: "point list"
    and nx ny :: real
  assume "x \<le> width"
  then have "0 \<le> \<lfloor>width - x\<rfloor>"
    by simp
  moreover have "\<lfloor>width - (x + 5)\<rfloor> = \<lfloor>width - x\<rfloor> - 5"
    using floor_diff_numeral [of "width - x" "Num.Bit1 (Num.Bit0 Num.One)"]
    by (simp only: diff_diff_eq)
  ultimately show "((coefficients, width, height, x + 5, curvePoints @ [\<lparr>px = x, py = ny * height\<rparr>]),
                    (coefficients, width, height, x, curvePoints))
          \<in> measure (\<lambda>(coefficients, width, height, x, curvePoints). nat (\<lfloor>width - x\<rfloor> + 1))"
    by simp
qed

declare curveLoop.simps [simp del]

text \<open>
  \<^verbatim>\<open>fitPolynomial(points, degree, width, height)\<close> for a degree that is a natural number.
  The nested loops that fill \<open>A\<close> and \<open>B\<close> are written as the lists they produce:
  \<open>A[i][j]\<close> is the sum of \<open>p.x ^ (i + j)\<close> and \<open>B[i]\<close> the sum of
  \<open>p.x ^ i * p.y\<close> over the normalised points, each accumulated from 0 in list order.
\<close>

definition fitPolynomial ::
  "(real \<Rightarrow> nat \<Rightarrow> string) \<Rightarrow> point list \<Rightarrow> nat \<Rightarrow> real \<Rightarrow> real \<Rightarrow> FittingResult" where
  "fitPolynomial toFixed points degree width height =
     (if length points < degree + 1
      then \<lparr>r_formula = ''Insufficient Data'', r_points = [], r_coefficients = [], r_type = Polynomial\<rparr>
      else
        let normPoints = map (\<lambda>p. \<lparr>px = px p / width, py = py p / height\<rparr>) points;
            n = degree + 1;
            A = map (\<lambda>i. map (\<lambda>j. fold (\<lambda>p sumX. sumX + px p ^ (i + j)) normPoints 0) [0..<n]) [0..<n];
            B = map (\<lambda>i. fold (\<lambda>p sumXY. sumXY + px p ^ i * py p) normPoints 0) [0..<n];
            coefficients = solveMatrix A B;
            formulaParts = rev (map (formulaPart toFixed) (enumerate 0 coefficients));
            formula = ''f(x) = '' @ join '' + '' formulaParts;
            curvePoints = curveLoop coefficients width height 0 []
        in \<lparr>r_formula = formula, r_points = curvePoints, r_coefficients = coefficients,
            r_type = Polynomial\<rparr>)"

section \<open>Linear systems\<close>

text \<open>
  The vocabulary for stating what the solver computes. \<open>rowDot n row x\<close> is the product
  of a matrix row with a vector, \<open>solves n A B x\<close> says that \<open>x\<close> is a vector of length
  \<open>n\<close> with \<open>A \<cdot> x = B\<close>, and a square matrix is nonsingular when \<open>A \<cdot> x = 0\<close> only
  for \<open>x = 0\<close>.
\<close>

definition rowDot :: "nat \<Rightarrow> real list \<Rightarrow> real list \<Rightarrow> real" where
  "rowDot n row x = (\<Sum>k<n. row ! k * x ! k)"

definition solves :: "nat \<Rightarrow> real list list \<Rightarrow> real list \<Rightarrow> real list \<Rightarrow> bool" where
  "solves n A B x \<longleftrightarrow> length x = n \<and> (\<forall>r<n. rowDot n (A ! r) x = B ! r)"

definition squareMatrix :: "nat \<Rightarrow> real list list \<Rightarrow> bool" where
  "squareMatrix n A \<longleftrightarrow> length A = n \<and> (\<forall>r<n. length (A ! r) = n)"

definition nonsingular :: "nat \<Rightarrow> real list list \<Rightarrow> bool" where
  "nonsingular n A \<longleftrightarrow>
     (\<forall>x. length x = n \<and> (\<forall>r<n. rowDot n (A ! r) x = 0) \<longrightarrow> (\<forall>k<n. x ! k = 0))"

text \<open>
  Two notions for the correctness proof. \<open>eliminated n i m AB AB'\<close> describes the
  system \<open>AB'\<close> that the row loop has made of \<open>AB\<close> once the rows \<open>i + 1, ..., m - 1\<close>
  are done: from each of them the multiple \<open>A[r][i] / A[i][i]\<close> of row \<open>i\<close> has been
  subtracted in the columns from \<open>i\<close> on, and nothing else has changed.
  \<open>reduced n i A\<close> says that \<open>A\<close> is square and that its first \<open>i\<close> columns are zero
  below the diagonal.
\<close>

definition eliminated ::
  "nat \<Rightarrow> nat \<Rightarrow> nat \<Rightarrow> real list list \<times> real list \<Rightarrow> real list list \<times> real list \<Rightarrow> bool" where
  "eliminated n i m AB AB' \<longleftrightarrow>
     squareMatrix n (fst AB') \<and> length (snd AB') = n \<and>
     (\<forall>r<n. i < r \<and> r < m \<longrightarrow>
        (\<forall>k<n. fst AB' ! r ! k =
                  (if i \<le> k then fst AB ! r ! k - fst AB ! r ! i / fst AB ! i ! i * fst AB ! i ! k
                   else fst AB ! r ! k)) \<and>
        snd AB' ! r = snd AB ! r - fst AB ! r ! i / fst AB ! i ! i * snd AB ! i) \<and>
     (\<forall>r<n. \<not> (i < r \<and> r < m) \<longrightarrow> fst AB' ! r = fst AB ! r \<and> snd AB' ! r = snd AB ! r)"

definition reduced :: "nat \<Rightarrow> nat \<Rightarrow> real list list \<Rightarrow> bool" where
  "reduced n i A \<longleftrightarrow> squareMatrix n A \<and> (\<forall>r<n. \<forall>c<i. c < r \<longrightarrow> A ! r ! c = 0)"

section \<open>Concrete inputs\<close>

text \<open>Twenty-one collinear edge points, one pixel apart.\<close>

definition run21 :: "point list" where
  "run21 = map (\<lambda>k. \<lparr>px = real k, py = 0\<rparr>) [0..<21]"

text \<open>
  A 3 by 3 image with a black left column, a grey middle column and a white right
  column (every pixel opaque).
\<close>

definition step3x3 :: canvas where
  "step3x3 = \<lparr>canvas_width = 3, canvas_height = 3,
     context2d = Some [0, 0, 0, 255, 128, 128, 128, 255, 255, 255, 255, 255,
                       0, 0, 0, 255, 128, 128, 128, 255, 255, 255, 255, 255,
                       0, 0, 0, 255, 128, 128, 128, 255, 255, 255, 255, 255]\<rparr>"

text \<open>A path of three points whose middle point lies 5 away from the chord.\<close>

definition spike :: "point list" where
  "spike = [\<lparr>px = 0, py = 0\<rparr>, \<lparr>px = 1, py = 5\<rparr>, \<lparr>px = 2, py = 0\<rparr>]"

text \<open>A single point, to be fitted by a constant on a 10 by 8 canvas.\<close>

definition onePoint :: "point list" where
  "onePoint = [\<lparr>px = 5, py = 4\<rparr>]"

text \<open>A system of two equations whose first pivot is found in the second row.\<close>

definition system2A :: "real list list" where
  "system2A = [[1, 2], [3, 4]]"

definition system2B :: "real list" where
  "system2B = [5, 6]"

text \<open>Three collinear points.\<close>

definition line3 :: "point list" where
  "line3 = [\<lparr>px = 0, py = 0\<rparr>, \<lparr>px = 1, py = 0\<rparr>, \<lparr>px = 2, py = 0\<rparr>]"

section \<open>Properties of segmentation\<close>

lemma segmentLoop_near:
  "sqrt ((px c - px (last cur)) ^ 2 + (py c - py (last cur)) ^ 2) < g \<Longrightarrow>
   segmentLoop g (c # todo) paths cur = segmentLoop g todo paths (cur @ [c])"
  by (simp add: Let_def)

lemma segmentLoop_far:
  "\<not> sqrt ((px c - px (last cur)) ^ 2 + (py c - py (last cur)) ^ 2) < g \<Longrightarrow>
   segmentLoop g (c # todo) paths cur =
     segmentLoop g todo (if length cur > 20 then paths @ [cur] else paths) [c]"
  by (simp add: Let_def)

lemma segmentLoop_long:
  "\<forall>p \<in> set paths. 20 < length p \<Longrightarrow>
   \<forall>p \<in> set (segmentLoop g todo paths cur). 20 < length p"
proof (induction todo arbitrary: paths cur)
  case Nil
  then show ?case by auto
next
  case (Cons c todo)
  show ?case
  proof (cases "sqrt ((px c - px (last cur)) ^ 2 + (py c - py (last cur)) ^ 2) < g")
    case True
    show ?thesis
      unfolding segmentLoop_near [OF True] using Cons.prems by (rule Cons.IH)
  next
    case False
    have "\<forall>p \<in> set (if length cur > 20 then paths @ [cur] else paths). 20 < length p"
      using Cons.prems by auto
    then show ?thesis
      unfolding segmentLoop_far [OF False] by (rule Cons.IH)
  qed
qed

lemma segmentLoop_chained:
  assumes "\<forall>p \<in> set paths. successively (\<lambda>a b. sqrt ((px b - px a) ^ 2 + (py b - py a) ^ 2) < g) p"
    and "cur \<noteq> []"
    and "successively (\<lambda>a b. sqrt ((px b - px a) ^ 2 + (py b - py a) ^ 2) < g) cur"
  shows "\<forall>p \<in> set (segmentLoop g todo paths cur).
      successively (\<lambda>a b. sqrt ((px b - px a) ^ 2 + (py b - py a) ^ 2) < g) p"
  using assms
proof (induction todo arbitrary: paths cur)
  case Nil
  then show ?case by auto
next
  case (Cons c todo)
  let ?P = "\<lambda>a b. sqrt ((px b - px a) ^ 2 + (py b - py a) ^ 2) < g"
  show ?case
  proof (cases "sqrt ((px c - px (last cur)) ^ 2 + (py c - py (last cur)) ^ 2) < g")
    case True
    have "successively ?P (cur @ [c])"
      using Cons.prems(2,3) True by (simp add: successively_append_iff)
    with Cons.prems(1) show ?thesis
      unfolding segmentLoop_near [OF True] by (intro Cons.IH) simp_all
  next
    case False
    have "\<forall>p \<in> set (if length cur > 20 then paths @ [cur] else paths). successively ?P p"
      using Cons.prems(1,3) by auto
    then show ?thesis
      unfolding segmentLoop_far [OF False] by (intro Cons.IH) simp_all
  qed
qed

lemma set_topPaths: "set (topPaths ps) \<subseteq> set ps"
  using set_take_subset [of 5 "sort_key (\<lambda>p. - int (length p)) ps"]
  by (simp add: topPaths_def)

lemma upt21: "[0..<21] = [0,1,2,3,4,5,6,7,8,9,10,11,12,13,14,15,16,17,18,19,20::nat]"
  by (simp add: upt_rec)

lemma segmentEdges_run21: "segmentEdges run21 2 = [run21]"
  by (simp add: segmentEdges_def run21_def upt21 Let_def)

lemma topPaths_run21: "topPaths [run21] = [run21]"
  by (simp add: topPaths_def)

text \<open>
  C6: for every list of edge points and every \<open>maxGap > 0\<close>, in every path that
  \<open>segmentEdges\<close> returns each pair of consecutive points has Euclidean distance strictly
  below \<open>maxGap\<close>.
\<close>

theorem segmentEdges_consecutive_gap:
  "0 < maxGap \<Longrightarrow>
   \<forall>path \<in> set (segmentEdges points maxGap).
     successively (\<lambda>a b. sqrt ((px b - px a) ^ 2 + (py b - py a) ^ 2) < maxGap) path"
proof (cases "length points = 0")
  case True
  then show ?thesis by (simp add: segmentEdges_def)
next
  case False
  have "\<forall>path \<in> set (segmentLoop maxGap (tl (sort_key px points)) [] [hd (sort_key px points)]).
     successively (\<lambda>a b. sqrt ((px b - px a) ^ 2 + (py b - py a) ^ 2) < maxGap) path"
    by (rule segmentLoop_chained) simp_all
  with False show ?thesis by (simp add: segmentEdges_def Let_def)
qed

theorem segmentEdges_consecutive_gap_witness:
  "(0::real) < 2 \<and> run21 \<in> set (segmentEdges run21 2) \<and> length run21 = 21 \<and>
   successively (\<lambda>a b. sqrt ((px b - px a) ^ 2 + (py b - py a) ^ 2) < 2) run21"
proof -
  have "\<forall>path \<in> set (segmentEdges run21 2).
     successively (\<lambda>a b. sqrt ((px b - px a) ^ 2 + (py b - py a) ^ 2) < 2) path"
    by (rule segmentEdges_consecutive_gap) simp
  then show ?thesis
    by (simp add: segmentEdges_run21) (simp add: run21_def)
qed

text \<open>
  C8: every path in the output of \<open>segmentEdges\<close> has strictly more than 20 points, and
  so has every path among the (at most five) longest ones that \<open>processImage\<close> selects
  from that output.
\<close>

theorem segmentEdges_paths_longer_than_20:
  "(\<forall>path \<in> set (segmentEdges points maxGap). 20 < length path) \<and>
   (\<forall>path \<in> set (topPaths (segmentEdges points maxGap)). 20 < length path)"
proof -
  have "\<forall>path \<in> set (segmentLoop maxGap todo [] cur). 20 < length path" for todo cur
    by (rule segmentLoop_long) simp
  then have *: "\<forall>path \<in> set (segmentEdges points maxGap). 20 < length path"
    by (simp add: segmentEdges_def Let_def)
  with set_topPaths [of "segmentEdges points maxGap"] show ?thesis
    by blast
qed

theorem segmentEdges_paths_longer_than_20_witness:
  "run21 \<in> set (segmentEdges run21 2) \<and> run21 \<in> set (topPaths (segmentEdges run21 2)) \<and>
   20 < length run21"
  using segmentEdges_paths_longer_than_20 [of run21 2]
  by (simp add: segmentEdges_run21 topPaths_run21)

section \<open>Properties of edge extraction\<close>

lemma edgeAt_cases:
  "p \<in> set (edgeAt gray w t y x) \<Longrightarrow> p = \<lparr>px = of_int x, py = of_int y\<rparr>"
  by (simp add: edgeAt_def Let_def split: if_splits)

lemma getEdges_interior:
  assumes "p \<in> set (getEdges canvas threshold)"
  shows "\<exists>x y :: int. p = \<lparr>px = of_int x, py = of_int y\<rparr> \<and>
           1 \<le> x \<and> x \<le> int (canvas_width canvas) - 2 \<and>
           1 \<le> y \<and> y \<le> int (canvas_height canvas) - 2"
proof (cases "context2d canvas")
  case None
  with assms show ?thesis by (simp add: getEdges_def)
next
  case (Some data)
  define w where "w = int (canvas_width canvas)"
  define h where "h = int (canvas_height canvas)"
  from assms Some obtain y x where y: "y \<in> set [1..h - 2]" and x: "x \<in> set [1..w - 2]"
    and p: "p \<in> set (edgeAt (grayscale data (nat (w * h))) w threshold y x)"
    by (auto simp: getEdges_def Let_def w_def h_def)
  from p have "p = \<lparr>px = of_int x, py = of_int y\<rparr>"
    by (rule edgeAt_cases)
  with x y show ?thesis
    unfolding w_def h_def by auto
qed

lemma sqrt_65025: "sqrt 65025 = 255"
  by (rule real_sqrt_unique) simp_all

lemma getEdges_step3x3: "getEdges step3x3 30 = [\<lparr>px = 1, py = 1\<rparr>]"
  by (simp add: getEdges_def step3x3_def grayscale_def edgeAt_def Let_def upto.simps upt_rec
      sqrt_65025)

text \<open>
  C9: for a pixel buffer of width \<open>W\<close> and height \<open>H\<close> and any threshold, every point
  that \<open>getEdges\<close> returns has integer coordinates \<open>x\<close>, \<open>y\<close> with
  \<open>1 \<le> x \<le> W - 2\<close> and \<open>1 \<le> y \<le> H - 2\<close>; so \<open>x\<close> is neither 0 nor \<open>W - 1\<close>
  and \<open>y\<close> is neither 0 nor \<open>H - 1\<close>.
\<close>

theorem getEdges_border_exclusion:
  "\<forall>p \<in> set (getEdges canvas threshold).
     (\<exists>x y :: int. px p = of_int x \<and> py p = of_int y \<and>
        1 \<le> x \<and> x \<le> int (canvas_width canvas) - 2 \<and>
        1 \<le> y \<and> y \<le> int (canvas_height canvas) - 2) \<and>
     px p \<noteq> 0 \<and> px p \<noteq> real (canvas_width canvas) - 1 \<and>
     py p \<noteq> 0 \<and> py p \<noteq> real (canvas_height canvas) - 1"
proof
  fix p assume "p \<in> set (getEdges canvas threshold)"
  then obtain x y :: int where p: "p = \<lparr>px = of_int x, py = of_int y\<rparr>"
    and x: "1 \<le> x" "x \<le> int (canvas_width canvas) - 2"
    and y: "1 \<le> y" "y \<le> int (canvas_height canvas) - 2"
    using getEdges_interior by blast
  have "px p = of_int x \<and> py p = of_int y \<and> 1 \<le> x \<and> x \<le> int (canvas_width canvas) - 2 \<and>
        1 \<le> y \<and> y \<le> int (canvas_height canvas) - 2"
    using p x y by simp
  moreover have "px p \<noteq> 0" "py p \<noteq> 0"
    using p x y by simp_all
  moreover have "real_of_int x \<le> real (canvas_width canvas) - 2"
    using x(2) by linarith
  then have "px p \<noteq> real (canvas_width canvas) - 1"
    using p by simp
  moreover have "real_of_int y \<le> real (canvas_height canvas) - 2"
    using y(2) by linarith
  then have "py p \<noteq> real (canvas_height canvas) - 1"
    using p by simp
  ultimately show "(\<exists>x y :: int. px p = of_int x \<and> py p = of_int y \<and>
        1 \<le> x \<and> x \<le> int (canvas_width canvas) - 2 \<and>
        1 \<le> y \<and> y \<le> int (canvas_height canvas) - 2) \<and>
     px p \<noteq> 0 \<and> px p \<noteq> real (canvas_width canvas) - 1 \<and>
     py p \<noteq> 0 \<and> py p \<noteq> real (canvas_height canvas) - 1"
    by blast
qed

theorem getEdges_border_exclusion_witness:
  "\<lparr>px = 1, py = 1\<rparr> \<in> set (getEdges step3x3 30) \<and>
   (\<exists>x y :: int. (1::real) = of_int x \<and> (1::real) = of_int y \<and>
        1 \<le> x \<and> x \<le> int (canvas_width step3x3) - 2 \<and>
        1 \<le> y \<and> y \<le> int (canvas_height step3x3) - 2)"
  using getEdges_border_exclusion [of step3x3 30]
  by (simp add: getEdges_step3x3)

section \<open>Properties of simplification\<close>

lemma fold_farthest:
  "fold (\<lambda>i (dmax, index). let d = g i in if d > dmax then (d, i) else (dmax, index)) xs (d0 :: real, k0 :: nat) = (d, k)
   \<Longrightarrow> d0 \<le> d \<and> ((d, k) = (d0, k0) \<or> (d0 < d \<and> k \<in> set xs))"
proof (induction xs arbitrary: d0 k0)
  case Nil
  then show ?case by simp
next
  case (Cons x xs)
  show ?case
  proof (cases "g x > d0")
    case True
    with Cons.prems have "fold (\<lambda>i (dmax, index). let d = g i in if d > dmax then (d, i) else (dmax, index)) xs (g x, x) = (d, k)"
      by (simp add: Let_def)
    from Cons.IH [OF this] True show ?thesis by auto
  next
    case False
    with Cons.prems have "fold (\<lambda>i (dmax, index). let d = g i in if d > dmax then (d, i) else (dmax, index)) xs (d0, k0) = (d, k)"
      by (simp add: Let_def)
    from Cons.IH [OF this] show ?thesis by auto
  qed
qed

lemma farthest_index:
  assumes "0 \<le> eps" and "fst (farthest pts) > eps"
  shows "1 \<le> snd (farthest pts) \<and> snd (farthest pts) < length pts - 1"
proof -
  obtain d k where dk: "farthest pts = (d, k)"
    by (cases "farthest pts")
  from dk [unfolded farthest_def] have "0 \<le> d \<and> ((d, k) = (0, 0) \<or> (0 < d \<and> k \<in> set [1..<length pts - 1]))"
    by (rule fold_farthest)
  with assms dk show ?thesis by auto
qed

lemma simplifyPoints_short:
  "length pts \<le> 2 \<Longrightarrow> simplifyPoints pts eps = Some pts"
  by (subst simplifyPoints.simps) simp

lemma simplifyPoints_flat:
  "2 < length pts \<Longrightarrow> \<not> fst (farthest pts) > eps \<Longrightarrow>
   simplifyPoints pts eps = Some [pts ! 0, pts ! (length pts - 1)]"
  by (subst simplifyPoints.simps) simp

lemma simplifyPoints_split:
  "2 < length pts \<Longrightarrow> fst (farthest pts) > eps \<Longrightarrow>
   simplifyPoints (take (snd (farthest pts) + 1) pts) eps = Some r1 \<Longrightarrow>
   simplifyPoints (drop (snd (farthest pts)) pts) eps = Some r2 \<Longrightarrow>
   simplifyPoints pts eps = Some (butlast r1 @ r2)"
  by (subst simplifyPoints.simps) simp

text \<open>
  An induction rule that follows the recursion of \<open>simplifyPoints\<close> for a tolerance of
  at least 0: the split index is interior, so both parts are shorter than the list.
\<close>

lemma simplifyPoints_induct [consumes 1, case_names short flat split]:
  assumes eps: "0 \<le> eps"
    and short: "\<And>pts. length pts \<le> 2 \<Longrightarrow> P pts"
    and flat: "\<And>pts. 2 < length pts \<Longrightarrow> \<not> fst (farthest pts) > eps \<Longrightarrow> P pts"
    and split: "\<And>pts k. 2 < length pts \<Longrightarrow> fst (farthest pts) > eps \<Longrightarrow> k = snd (farthest pts) \<Longrightarrow>
                  1 \<le> k \<Longrightarrow> k < length pts - 1 \<Longrightarrow>
                  P (take (k + 1) pts) \<Longrightarrow> P (drop k pts) \<Longrightarrow> P pts"
  shows "P pts"
proof (induction pts rule: length_induct)
  case (1 pts)
  show ?case
  proof (cases "length pts \<le> 2")
    case True
    then show ?thesis by (rule short)
  next
    case long: False
    show ?thesis
    proof (cases "fst (farthest pts) > eps")
      case False
      with long show ?thesis by (intro flat) simp_all
    next
      case True
      define k where "k = snd (farthest pts)"
      from farthest_index [OF eps True] have k: "1 \<le> k" "k < length pts - 1"
        by (simp_all add: k_def)
      have "length (take (k + 1) pts) < length pts" "length (drop k pts) < length pts"
        using k by simp_all
      with 1 have "P (take (k + 1) pts)" "P (drop k pts)"
        by blast+
      with long True k show ?thesis
        by (intro split [of pts k]) (simp_all add: k_def)
    qed
  qed
qed

lemma simplifyPoints_result:
  assumes "0 \<le> eps"
  shows "\<exists>ys. simplifyPoints pts eps = Some ys \<and>
           (pts = [] \<longrightarrow> ys = []) \<and>
           (pts \<noteq> [] \<longrightarrow> ys \<noteq> [] \<and> hd ys = hd pts \<and> last ys = last pts \<and>
              subseq (butlast ys) (butlast pts)) \<and>
           (2 \<le> length pts \<longrightarrow> 2 \<le> length ys)"
  using assms
proof (induction pts rule: simplifyPoints_induct)
  case (short pts)
  then show ?case by (simp add: simplifyPoints_short)
next
  case (flat pts)
  then have ne: "pts \<noteq> []" "butlast pts \<noteq> []"
    by (auto simp: butlast_conv_take)
  have "pts ! 0 = hd pts" "pts ! (length pts - 1) = last pts"
    using ne by (simp_all add: hd_conv_nth last_conv_nth)
  moreover have "hd pts \<in> set (butlast pts)"
    using ne flat(1) by (cases pts) auto
  ultimately show ?case
    using flat ne by (simp add: simplifyPoints_flat subseq_singleton_left)
next
  case (split pts k)
  let ?l = "take (k + 1) pts" and ?r = "drop k pts"
  have len: "2 \<le> length ?l" "2 \<le> length ?r" "?l \<noteq> []" "?r \<noteq> []"
    using split(4,5) by auto
  from split(6) len obtain r1 where r1: "simplifyPoints ?l eps = Some r1" "r1 \<noteq> []"
    "hd r1 = hd ?l" "last r1 = last ?l" "subseq (butlast r1) (butlast ?l)" "2 \<le> length r1"
    by auto
  from split(7) len obtain r2 where r2: "simplifyPoints ?r eps = Some r2" "r2 \<noteq> []"
    "hd r2 = hd ?r" "last r2 = last ?r" "subseq (butlast r2) (butlast ?r)" "2 \<le> length r2"
    by auto
  have res: "simplifyPoints pts eps = Some (butlast r1 @ r2)"
    using split(1,2) r1(1) r2(1) unfolding split(3) by (rule simplifyPoints_split)
  have b1: "butlast r1 \<noteq> []"
    using r1(6) by (cases r1) auto
  have "hd (butlast r1) = hd r1"
    using b1 by (cases r1) auto
  then have hd: "hd (butlast r1 @ r2) = hd pts"
    using b1 r1(3) by simp
  have "last ?r = last pts"
    using split(5) by simp
  then have lst: "last (butlast r1 @ r2) = last pts"
    using r2(2,4) by simp
  have "butlast ?l = take k pts"
    using split(5) by (simp add: butlast_take)
  moreover have "butlast pts = take k pts @ butlast ?r"
    using len(4) by (metis append_take_drop_id butlast_append)
  moreover have "butlast (butlast r1 @ r2) = butlast r1 @ butlast r2"
    using r2(2) by (simp add: butlast_append)
  ultimately have sub: "subseq (butlast (butlast r1 @ r2)) (butlast pts)"
    using r1(5) r2(5) by (simp add: list_emb_append_mono)
  have "2 \<le> length (butlast r1 @ r2)"
    using r2(6) by simp
  with res hd lst sub b1 split(1) show ?case
    by auto
qed

section \<open>Claims about simplification\<close>

lemma farthest_spike: "farthest spike = (5, 1)"
  by (simp add: farthest_def spike_def findPerpendicularDistance_def Let_def)

lemma simplifyPoints_spike_1: "simplifyPoints spike 1 = Some spike"
proof -
  have "simplifyPoints spike 1 =
      Some (butlast [\<lparr>px = 0, py = 0\<rparr>, \<lparr>px = 1, py = 5\<rparr>] @ [\<lparr>px = 1, py = 5\<rparr>, \<lparr>px = 2, py = 0\<rparr>])"
    by (rule simplifyPoints_split)
       (simp_all add: farthest_spike simplifyPoints_short, simp_all add: spike_def simplifyPoints_short)
  then show ?thesis by (simp add: spike_def)
qed

lemma simplifyPoints_spike_10:
  "simplifyPoints spike 10 = Some [\<lparr>px = 0, py = 0\<rparr>, \<lparr>px = 2, py = 0\<rparr>]"
proof -
  have "simplifyPoints spike 10 = Some [spike ! 0, spike ! (length spike - 1)]"
    by (rule simplifyPoints_flat) (simp_all add: farthest_spike, simp add: spike_def)
  then show ?thesis by (simp add: spike_def)
qed

text \<open>
  C10: for every point list and every \<open>epsilon \<ge> 0\<close>, \<open>simplifyPoints\<close> returns.
  Whenever the recursive branch is taken (more than two points and \<open>dmax > epsilon\<close>),
  the split index lies strictly between the first and the last position, so both
  recursive calls receive strictly shorter lists.
\<close>

theorem simplifyPoints_terminates:
  "0 \<le> epsilon \<Longrightarrow>
   (\<exists>ys. simplifyPoints points epsilon = Some ys) \<and>
   (2 < length points \<and> fst (farthest points) > epsilon \<longrightarrow>
      0 < snd (farthest points) \<and> snd (farthest points) < length points - 1 \<and>
      length (take (snd (farthest points) + 1) points) < length points \<and>
      length (drop (snd (farthest points)) points) < length points)"
proof -
  assume eps: "0 \<le> epsilon"
  from simplifyPoints_result [OF eps, of points]
  have "\<exists>ys. simplifyPoints points epsilon = Some ys"
    by blast
  moreover have "0 < snd (farthest points) \<and> snd (farthest points) < length points - 1 \<and>
      length (take (snd (farthest points) + 1) points) < length points \<and>
      length (drop (snd (farthest points)) points) < length points"
    if "fst (farthest points) > epsilon"
    using farthest_index [OF eps that] by auto
  ultimately show ?thesis by blast
qed

theorem simplifyPoints_terminates_witness:
  "(0::real) \<le> 1 \<and> simplifyPoints spike 1 = Some spike \<and>
   2 < length spike \<and> fst (farthest spike) > 1 \<and>
   0 < snd (farthest spike) \<and> snd (farthest spike) < length spike - 1 \<and>
   length (take (snd (farthest spike) + 1) spike) < length spike \<and>
   length (drop (snd (farthest spike)) spike) < length spike"
proof -
  have "2 < length spike \<and> fst (farthest spike) > 1"
    by (simp add: farthest_spike) (simp add: spike_def)
  with simplifyPoints_terminates [of 1 spike] show ?thesis
    by (simp add: simplifyPoints_spike_1)
qed

text \<open>
  C5: for every non-empty point list and every \<open>epsilon \<ge> 0\<close>, the output of
  \<open>simplifyPoints\<close> starts with the first input point and ends with the last one; it is
  a subsequence of the input, so no point is invented, and it is at most as long.
\<close>

theorem simplifyPoints_endpoints_subseq:
  "points \<noteq> [] \<Longrightarrow> 0 \<le> epsilon \<Longrightarrow>
   \<exists>ys. simplifyPoints points epsilon = Some ys \<and> ys \<noteq> [] \<and>
        hd ys = hd points \<and> last ys = last points \<and>
        subseq ys points \<and> length ys \<le> length points"
proof -
  assume ne: "points \<noteq> []" and eps: "0 \<le> epsilon"
  from simplifyPoints_result [OF eps, of points] ne
  obtain ys where ys: "simplifyPoints points epsilon = Some ys" "ys \<noteq> []"
    "hd ys = hd points" "last ys = last points" "subseq (butlast ys) (butlast points)"
    by blast
  have "subseq (butlast ys @ [last ys]) (butlast points @ [last points])"
    using ys(5) unfolding ys(4) by (rule list_emb_append_mono) simp
  then have sub: "subseq ys points"
    using ys(2) ne by simp
  then have "length ys \<le> length points"
    by (rule list_emb_length)
  with ys sub show ?thesis by blast
qed

theorem simplifyPoints_endpoints_subseq_witness:
  "spike \<noteq> [] \<and> (0::real) \<le> 10 \<and>
   (\<exists>ys. simplifyPoints spike 10 = Some ys \<and> ys \<noteq> [] \<and> hd ys = hd spike \<and> last ys = last spike \<and>
         subseq ys spike \<and> length ys \<le> length spike) \<and>
   simplifyPoints spike 10 = Some [\<lparr>px = 0, py = 0\<rparr>, \<lparr>px = 2, py = 0\<rparr>]"
proof -
  have ne: "spike \<noteq> []" by (simp add: spike_def)
  have ex: "\<exists>ys. simplifyPoints spike 10 = Some ys \<and> ys \<noteq> [] \<and> hd ys = hd spike \<and>
         last ys = last spike \<and> subseq ys spike \<and> length ys \<le> length spike"
    by (rule simplifyPoints_endpoints_subseq [OF ne]) simp
  show ?thesis
    by (intro conjI ne ex simplifyPoints_spike_10) simp
qed

text \<open>
  C3: for a fixed point list and tolerances \<open>0 \<le> eps1 \<le> eps2\<close>, the output of
  \<open>simplifyPoints\<close> for \<open>eps2\<close> is at most as long as the output for \<open>eps1\<close>.
\<close>

theorem simplifyPoints_length_antimono:
  "0 \<le> eps1 \<Longrightarrow> eps1 \<le> eps2 \<Longrightarrow>
   \<exists>ys1 ys2. simplifyPoints points eps1 = Some ys1 \<and> simplifyPoints points eps2 = Some ys2 \<and>
            length ys2 \<le> length ys1"
proof -
  assume eps1: "0 \<le> eps1" and le: "eps1 \<le> eps2"
  then have "0 \<le> eps2" by simp
  then show ?thesis
  proof (induction points rule: simplifyPoints_induct)
    case (short pts)
    then show ?case by (simp add: simplifyPoints_short)
  next
    case (flat pts)
    from simplifyPoints_result [OF eps1, of pts] flat(1)
    obtain ys1 where "simplifyPoints pts eps1 = Some ys1" "2 \<le> length ys1"
      by auto
    with flat show ?case by (simp add: simplifyPoints_flat)
  next
    case (split pts k)
    from split(6) obtain a1 a2 where a: "simplifyPoints (take (k + 1) pts) eps1 = Some a1"
      "simplifyPoints (take (k + 1) pts) eps2 = Some a2" "length a2 \<le> length a1"
      by blast
    from split(7) obtain b1 b2 where b: "simplifyPoints (drop k pts) eps1 = Some b1"
      "simplifyPoints (drop k pts) eps2 = Some b2" "length b2 \<le> length b1"
      by blast
    have "fst (farthest pts) > eps1"
      using split(2) le by simp
    with split(1) have "simplifyPoints pts eps1 = Some (butlast a1 @ b1)"
      using a(1) b(1) unfolding split(3) by (rule simplifyPoints_split)
    moreover have "simplifyPoints pts eps2 = Some (butlast a2 @ b2)"
      using split(1,2) a(2) b(2) unfolding split(3) by (rule simplifyPoints_split)
    moreover have "length (butlast a2 @ b2) \<le> length (butlast a1 @ b1)"
      using a(3) b(3) by simp
    ultimately show ?case by blast
  qed
qed

theorem simplifyPoints_length_antimono_witness:
  "(0::real) \<le> 1 \<and> (1::real) \<le> 10 \<and>
   simplifyPoints spike 1 = Some spike \<and>
   simplifyPoints spike 10 = Some [\<lparr>px = 0, py = 0\<rparr>, \<lparr>px = 2, py = 0\<rparr>] \<and>
   length [\<lparr>px = 0, py = 0\<rparr>, \<lparr>px = 2, py = 0 :: real\<rparr>] \<le> length spike"
  using simplifyPoints_length_antimono [of 1 10 spike]
  by (simp add: simplifyPoints_spike_1 simplifyPoints_spike_10)

subsection \<open>A negative tolerance\<close>

text \<open>
  The hypothesis \<open>0 \<le> epsilon\<close> cannot be dropped: on three collinear points no
  distance exceeds 0, the index stays 0, and with \<open>epsilon = - 1\<close> the second
  recursive call is on the whole list again, so the call never returns.
\<close>

lemma farthest_line3: "farthest line3 = (0, 0)"
  by (simp add: farthest_def line3_def findPerpendicularDistance_def Let_def)

lemma simplifyPoints_negative_diverges: "simplifyPoints line3 (- 1) = None"
proof (rule ccontr)
  assume "simplifyPoints line3 (- 1) \<noteq> None"
  then obtain ys where ys: "simplifyPoints line3 (- 1) = Some ys"
    by blast
  have "\<not> (line3 = line3 \<and> (- 1 :: real) = - 1)"
  proof (rule simplifyPoints.raw_induct
      [where P = "\<lambda>pts eps ys. \<not> (pts = line3 \<and> eps = - 1)" and y = ys])
    fix f :: "point list \<Rightarrow> real \<Rightarrow> point list option"
      and pts :: "point list" and eps :: real and zs :: "point list"
    assume IH: "\<And>p e y. f p e = Some y \<Longrightarrow> \<not> (p = line3 \<and> e = - 1)"
      and body: "(if length pts \<le> 2 then Some pts
        else if eps < fst (farthest pts)
          then Option.bind (f (take (snd (farthest pts) + 1) pts) eps)
                 (\<lambda>recursiveResults1. Option.bind (f (drop (snd (farthest pts)) pts) eps)
                    (\<lambda>recursiveResults2. Some (butlast recursiveResults1 @ recursiveResults2)))
          else Some [pts ! 0, pts ! (length pts - 1)]) = Some zs"
    show "\<not> (pts = line3 \<and> eps = - 1)"
    proof
      assume eq: "pts = line3 \<and> eps = - 1"
      have "length line3 = 3"
        by (simp add: line3_def)
      with body eq obtain r2 where "f line3 (- 1) = Some r2"
        by (auto simp: farthest_line3 bind_eq_Some_conv)
      with IH [of line3 "- 1" r2] show False
        by simp
    qed
  next
    show "simplifyPoints line3 (- 1) = Some ys"
      by (rule ys)
  qed
  then show False by simp
qed

section \<open>Properties of the fit\<close>

lemma fold_add_upt:
  "fold (\<lambda>i s. s + f i) [a..<b] (s0 :: real) = s0 + sum f {a..<b}"
proof (induction b)
  case 0
  then show ?case by simp
next
  case (Suc b)
  then show ?case
    by (cases "a \<le> b") (simp_all add: sum.atLeastLessThan_Suc)
qed

lemma fold_add_list:
  "fold (\<lambda>p s. s + f p) xs (s0 :: real) = s0 + sum_list (map f xs)"
  by (induction xs arbitrary: s0) simp_all

lemma length_fold_backStep:
  "length (fold (backStep n A B) is xs) = length xs"
  by (induction "is" arbitrary: xs) (simp_all add: backStep_def Let_def)

lemma length_solveMatrix: "length (solveMatrix A B) = length B"
  by (simp add: solveMatrix_def Let_def length_fold_backStep)

lemma solveMatrix_1x1: "solveMatrix [[a]] [b] = [b / a]"
  by (simp add: solveMatrix_def eliminateColumn_def pivotRow_def swap_def backStep_def Let_def)

lemma curveLoop_eq:
  "curveLoop cs w h x acc =
     acc @ map (\<lambda>k. \<lparr>px = x + 5 * real k,
                      py = (\<Sum>i<length cs. cs ! i * ((x + 5 * real k) / w) ^ i) * h\<rparr>)
             [0..<nat (\<lfloor>(w - x) / 5\<rfloor> + 1)]"
proof (induction cs w h x acc rule: curveLoop.induct)
  case (1 cs w h x acc)
  show ?case
  proof (cases "x \<le> w")
    case False
    then have "\<lfloor>(w - x) / 5\<rfloor> < 0"
      by (simp add: floor_less_iff)
    then have "\<lfloor>(w - x) / 5\<rfloor> + 1 \<le> 0"
      by linarith
    then have "[0..<nat (\<lfloor>(w - x) / 5\<rfloor> + 1)] = []"
      by (simp only: nat_le_0 upt_0)
    moreover have "curveLoop cs w h x acc = acc"
      using False by (subst curveLoop.simps) simp
    ultimately show ?thesis
      by (simp only: list.map append_Nil2)
  next
    case True
    then have nonneg: "0 \<le> \<lfloor>(w - x) / 5\<rfloor>"
      by simp
    have shift: "(w - (x + 5)) / 5 = (w - x) / 5 - 1"
      by (simp add: field_simps)
    have "\<lfloor>(w - (x + 5)) / 5\<rfloor> = \<lfloor>(w - x) / 5\<rfloor> - 1"
      unfolding shift by (rule floor_diff_one)
    with nonneg have cnt: "nat (\<lfloor>(w - x) / 5\<rfloor> + 1) = Suc (nat (\<lfloor>(w - (x + 5)) / 5\<rfloor> + 1))"
      by linarith
    have ny: "fold (\<lambda>i ny. ny + cs ! i * (x / w) ^ i) [0..<length cs] 0
                = (\<Sum>i<length cs. cs ! i * (x / w) ^ i)"
      by (simp add: fold_add_upt atLeast0LessThan)
    have "curveLoop cs w h x acc =
            curveLoop cs w h (x + 5)
              (acc @ [\<lparr>px = x, py = (\<Sum>i<length cs. cs ! i * (x / w) ^ i) * h\<rparr>])"
      using True by (subst curveLoop.simps) (simp add: Let_def ny)
    also have "\<dots> = (acc @ [\<lparr>px = x, py = (\<Sum>i<length cs. cs ! i * (x / w) ^ i) * h\<rparr>]) @
          map (\<lambda>k. \<lparr>px = x + 5 + 5 * real k,
                      py = (\<Sum>i<length cs. cs ! i * ((x + 5 + 5 * real k) / w) ^ i) * h\<rparr>)
             [0..<nat (\<lfloor>(w - (x + 5)) / 5\<rfloor> + 1)]"
      using "1.IH" [OF True refl refl] by (simp add: ny)
    also have "\<dots> = acc @ map (\<lambda>k. \<lparr>px = x + 5 * real k,
                      py = (\<Sum>i<length cs. cs ! i * ((x + 5 * real k) / w) ^ i) * h\<rparr>)
             [0..<nat (\<lfloor>(w - x) / 5\<rfloor> + 1)]"
      unfolding cnt map_upt_Suc by (simp add: algebra_simps)
    finally show ?thesis .
  qed
qed



lemma fitPolynomial_enough:
  assumes "degree + 1 \<le> length points"
  shows "fitPolynomial toFixed points degree width height =
     (let normPoints = map (\<lambda>p. \<lparr>px = px p / width, py = py p / height\<rparr>) points;
          n = degree + 1;
          A = map (\<lambda>i. map (\<lambda>j. fold (\<lambda>p sumX. sumX + px p ^ (i + j)) normPoints 0) [0..<n]) [0..<n];
          B = map (\<lambda>i. fold (\<lambda>p sumXY. sumXY + px p ^ i * py p) normPoints 0) [0..<n];
          coefficients = solveMatrix A B
      in \<lparr>r_formula = ''f(x) = '' @ join '' + '' (rev (map (formulaPart toFixed) (enumerate 0 coefficients))),
          r_points = curveLoop coefficients width height 0 [],
          r_coefficients = coefficients, r_type = Polynomial\<rparr>)"
  using assms by (simp add: fitPolynomial_def Let_def)


lemma fitPolynomial_onePoint:
  "fitPolynomial (\<lambda>c d. ''0.50'') onePoint 0 10 8 =
     \<lparr>r_formula = ''f(x) = 0.50'',
      r_points = [\<lparr>px = 0, py = 4\<rparr>, \<lparr>px = 5, py = 4\<rparr>, \<lparr>px = 10, py = 4\<rparr>],
      r_coefficients = [1 / 2], r_type = Polynomial\<rparr>"
proof -
  have "[0..<nat (\<lfloor>(10 - 0) / 5 :: real\<rfloor> + 1)] = [0, 1, 2]"
    by (simp add: upt_rec)
  then show ?thesis
    by (simp add: fitPolynomial_enough onePoint_def solveMatrix_1x1 curveLoop_eq formulaPart_def
        enumerate_eq_zip Let_def)
qed

lemma sum_list_ones: "(\<Sum>x\<leftarrow>xs. (1::real)) = real (length xs)"
  by (induction xs) simp_all

lemma fitPolynomial_curve_coefficients:
  "degree + 1 \<le> length points \<Longrightarrow>
   r_points (fitPolynomial toFixed points degree width height) =
     curveLoop (r_coefficients (fitPolynomial toFixed points degree width height)) width height 0 []"
  by (simp add: fitPolynomial_enough Let_def)

lemma curveLoop_from_0:
  assumes "0 < width"
  shows "curveLoop cs width height 0 [] =
     map (\<lambda>k. \<lparr>px = 5 * real k, py = height * (\<Sum>i<length cs. cs ! i * (5 * real k / width) ^ i)\<rparr>)
         [0..<nat \<lfloor>width / 5\<rfloor> + 1]"
proof -
  from assms have "0 \<le> \<lfloor>width / 5\<rfloor>"
    by simp
  then have "nat (\<lfloor>(width - 0) / 5\<rfloor> + 1) = nat \<lfloor>width / 5\<rfloor> + 1"
    by (simp add: nat_add_distrib)
  then show ?thesis
    by (simp add: curveLoop_eq mult.commute [of _ height])
qed

text \<open>
  C1: \<open>fitPolynomial\<close> returns the sentinel result (the formula
  \<^verbatim>\<open>'Insufficient Data'\<close>, no curve points, no coefficients) when the list has fewer than
  \<open>degree + 1\<close> points, and a result different from the sentinel when it has at least
  \<open>degree + 1\<close> points: there the formula is not the marker and there are
  \<open>degree + 1\<close> coefficients. So the sentinel is returned exactly when the point count
  is below \<open>degree + 1\<close>.
\<close>

theorem fitPolynomial_sentinel:
  "(length points < degree + 1 \<longrightarrow>
      fitPolynomial toFixed points degree width height =
        \<lparr>r_formula = ''Insufficient Data'', r_points = [], r_coefficients = [], r_type = Polynomial\<rparr>) \<and>
   (degree + 1 \<le> length points \<longrightarrow>
      fitPolynomial toFixed points degree width height \<noteq>
        \<lparr>r_formula = ''Insufficient Data'', r_points = [], r_coefficients = [], r_type = Polynomial\<rparr> \<and>
      r_formula (fitPolynomial toFixed points degree width height) \<noteq> ''Insufficient Data'' \<and>
      length (r_coefficients (fitPolynomial toFixed points degree width height)) = degree + 1)"
proof (intro conjI impI)
  assume "length points < degree + 1"
  then show "fitPolynomial toFixed points degree width height =
        \<lparr>r_formula = ''Insufficient Data'', r_points = [], r_coefficients = [], r_type = Polynomial\<rparr>"
    by (simp add: fitPolynomial_def)
next
  assume enough: "degree + 1 \<le> length points"
  show formula: "r_formula (fitPolynomial toFixed points degree width height) \<noteq> ''Insufficient Data''"
    by (simp add: fitPolynomial_enough [OF enough] Let_def)
  show "length (r_coefficients (fitPolynomial toFixed points degree width height)) = degree + 1"
    by (simp add: fitPolynomial_enough [OF enough] Let_def length_solveMatrix)
  from formula show "fitPolynomial toFixed points degree width height \<noteq>
        \<lparr>r_formula = ''Insufficient Data'', r_points = [], r_coefficients = [], r_type = Polynomial\<rparr>"
    by auto
qed

theorem fitPolynomial_sentinel_witness:
  "length ([] :: point list) < 3 + 1 \<and>
   fitPolynomial (\<lambda>c d. ''0.50'') [] 3 10 8 =
     \<lparr>r_formula = ''Insufficient Data'', r_points = [], r_coefficients = [], r_type = Polynomial\<rparr> \<and>
   0 + 1 \<le> length onePoint \<and>
   fitPolynomial (\<lambda>c d. ''0.50'') onePoint 0 10 8 \<noteq>
     \<lparr>r_formula = ''Insufficient Data'', r_points = [], r_coefficients = [], r_type = Polynomial\<rparr> \<and>
   r_formula (fitPolynomial (\<lambda>c d. ''0.50'') onePoint 0 10 8) = ''f(x) = 0.50'' \<and>
   length (r_coefficients (fitPolynomial (\<lambda>c d. ''0.50'') onePoint 0 10 8)) = 0 + 1"
proof -
  have one: "0 + 1 \<le> length onePoint"
    by (simp add: onePoint_def)
  have "fitPolynomial (\<lambda>c d. ''0.50'') [] 3 10 8 =
     \<lparr>r_formula = ''Insufficient Data'', r_points = [], r_coefficients = [], r_type = Polynomial\<rparr>"
    using fitPolynomial_sentinel [of "[]" 3 "\<lambda>c d. ''0.50''" 10 8] by simp
  moreover have "fitPolynomial (\<lambda>c d. ''0.50'') onePoint 0 10 8 \<noteq>
     \<lparr>r_formula = ''Insufficient Data'', r_points = [], r_coefficients = [], r_type = Polynomial\<rparr> \<and>
     length (r_coefficients (fitPolynomial (\<lambda>c d. ''0.50'') onePoint 0 10 8)) = 0 + 1"
    using fitPolynomial_sentinel [of onePoint 0 "\<lambda>c d. ''0.50''" 10 8] one by blast
  ultimately show ?thesis
    using one by (simp add: fitPolynomial_onePoint)
qed

text \<open>
  C4: for a non-empty point list and positive width and height, \<open>fitPolynomial\<close> with
  degree 0 returns exactly one coefficient, the arithmetic mean of the normalised
  y-values \<open>y / height\<close> of the input points.
\<close>

theorem fitPolynomial_degree_0_mean:
  "points \<noteq> [] \<Longrightarrow> 0 < width \<Longrightarrow> 0 < height \<Longrightarrow>
   r_coefficients (fitPolynomial toFixed points 0 width height) =
     [(\<Sum>p\<leftarrow>points. py p / height) / real (length points)]"
proof -
  assume ne: "points \<noteq> []"
  then have "0 + 1 \<le> length points"
    by (cases points) simp_all
  then show ?thesis
    by (simp add: fitPolynomial_enough Let_def fold_add_list solveMatrix_1x1 sum_list_ones comp_def)
qed

theorem fitPolynomial_degree_0_mean_witness:
  "onePoint \<noteq> [] \<and> (0::real) < 10 \<and> (0::real) < 8 \<and>
   r_coefficients (fitPolynomial (\<lambda>c d. ''0.50'') onePoint 0 10 8) =
     [(\<Sum>p\<leftarrow>onePoint. py p / 8) / real (length onePoint)] \<and>
   (\<Sum>p\<leftarrow>onePoint. py p / 8) / real (length onePoint) = 1 / 2"
proof -
  have ne: "onePoint \<noteq> []"
    by (simp add: onePoint_def)
  have coeff: "r_coefficients (fitPolynomial (\<lambda>c d. ''0.50'') onePoint 0 10 8) =
     [(\<Sum>p\<leftarrow>onePoint. py p / 8) / real (length onePoint)]"
    by (rule fitPolynomial_degree_0_mean [OF ne]) simp_all
  have mean: "(\<Sum>p\<leftarrow>onePoint. py p / 8) / real (length onePoint) = 1 / 2"
    by (simp add: onePoint_def)
  show ?thesis
    by (intro conjI ne coeff mean) simp_all
qed

text \<open>
  C7: when the input has at least \<open>degree + 1\<close> points and width and height are
  positive, the curve of the result has exactly the points with x-coordinate
  0, 5, 10, ..., the multiples of 5 that do not exceed \<open>width\<close>, in ascending order, and
  the point at \<open>x\<close> has \<open>y = height * (\<Sum>i. c\<^sub>i * (x / width) ^ i)\<close> for the returned
  coefficients \<open>c\<close>. The samples start at 0 and end at \<open>5 * \<lfloor>width / 5\<rfloor>\<close>, the last
  multiple of 5 within the width.
\<close>

theorem fitPolynomial_curve:
  "degree + 1 \<le> length points \<Longrightarrow> 0 < width \<Longrightarrow> 0 < height \<Longrightarrow>
   r_points (fitPolynomial toFixed points degree width height) =
     map (\<lambda>k. \<lparr>px = 5 * real k,
                py = height * (\<Sum>i<length (r_coefficients (fitPolynomial toFixed points degree width height)).
                        r_coefficients (fitPolynomial toFixed points degree width height) ! i
                          * (5 * real k / width) ^ i)\<rparr>)
         [0..<nat \<lfloor>width / 5\<rfloor> + 1]"
proof -
  assume enough: "degree + 1 \<le> length points" and w: "0 < width"
  show ?thesis
    unfolding fitPolynomial_curve_coefficients [OF enough, of toFixed width height]
    by (rule curveLoop_from_0 [OF w])
qed

theorem fitPolynomial_curve_witness:
  "0 + 1 \<le> length onePoint \<and> (0::real) < 10 \<and> (0::real) < 8 \<and>
   r_points (fitPolynomial (\<lambda>c d. ''0.50'') onePoint 0 10 8) =
     map (\<lambda>k. \<lparr>px = 5 * real k,
                py = 8 * (\<Sum>i<length (r_coefficients (fitPolynomial (\<lambda>c d. ''0.50'') onePoint 0 10 8)).
                        r_coefficients (fitPolynomial (\<lambda>c d. ''0.50'') onePoint 0 10 8) ! i
                          * (5 * real k / 10) ^ i)\<rparr>)
         [0..<nat \<lfloor>10 / 5 :: real\<rfloor> + 1] \<and>
   r_points (fitPolynomial (\<lambda>c d. ''0.50'') onePoint 0 10 8) =
     [\<lparr>px = 0, py = 4\<rparr>, \<lparr>px = 5, py = 4\<rparr>, \<lparr>px = 10, py = 4\<rparr>]"
proof -
  have one: "0 + 1 \<le> length onePoint"
    by (simp add: onePoint_def)
  have curve: "r_points (fitPolynomial (\<lambda>c d. ''0.50'') onePoint 0 10 8) =
     map (\<lambda>k. \<lparr>px = 5 * real k,
                py = 8 * (\<Sum>i<length (r_coefficients (fitPolynomial (\<lambda>c d. ''0.50'') onePoint 0 10 8)).
                        r_coefficients (fitPolynomial (\<lambda>c d. ''0.50'') onePoint 0 10 8) ! i
                          * (5 * real k / 10) ^ i)\<rparr>)
         [0..<nat \<lfloor>10 / 5 :: real\<rfloor> + 1]"
    by (rule fitPolynomial_curve [OF one]) simp_all
  have val: "r_points (fitPolynomial (\<lambda>c d. ''0.50'') onePoint 0 10 8) =
     [\<lparr>px = 0, py = 4\<rparr>, \<lparr>px = 5, py = 4\<rparr>, \<lparr>px = 10, py = 4\<rparr>]"
    by (simp add: fitPolynomial_onePoint)
  show ?thesis
    by (intro conjI one curve val) simp_all
qed

section \<open>Correctness of the linear solver\<close>

subsection \<open>The loops of the elimination\<close>

lemma fold_pivot:
  fixes g :: "nat \<Rightarrow> real"
  defines "mx \<equiv> \<lambda>js mx0. fold (\<lambda>j mx. if g j > g mx then j else mx) js mx0"
  shows "mx js mx0 \<in> insert mx0 (set js) \<and> g mx0 \<le> g (mx js mx0) \<and>
         (\<forall>r \<in> set js. g r \<le> g (mx js mx0))"
proof (induction js arbitrary: mx0)
  case Nil
  then show ?case by (simp add: mx_def)
next
  case (Cons j js)
  have step: "mx (j # js) mx0 = mx js (if g j > g mx0 then j else mx0)"
    by (simp add: mx_def)
  show ?case
    unfolding step using Cons.IH [of "if g j > g mx0 then j else mx0"]
    by (auto split: if_splits)
qed

lemma pivotRow_max:
  assumes "i < n"
  shows "i \<le> pivotRow A n i \<and> pivotRow A n i < n \<and>
         (\<forall>r. i \<le> r \<and> r < n \<longrightarrow> \<bar>A ! r ! i\<bar> \<le> \<bar>A ! pivotRow A n i ! i\<bar>)"
proof -
  let ?mx = "pivotRow A n i"
  from fold_pivot [of "\<lambda>r. \<bar>A ! r ! i\<bar>" "[i + 1..<n]" i]
  have mem: "?mx \<in> insert i (set [i + 1..<n])"
    and start: "\<bar>A ! i ! i\<bar> \<le> \<bar>A ! ?mx ! i\<bar>"
    and rest: "\<forall>r \<in> set [i + 1..<n]. \<bar>A ! r ! i\<bar> \<le> \<bar>A ! ?mx ! i\<bar>"
    by (simp_all add: pivotRow_def)
  have "\<bar>A ! r ! i\<bar> \<le> \<bar>A ! ?mx ! i\<bar>" if "i \<le> r" "r < n" for r
  proof (cases "r = i")
    case True
    with start show ?thesis by simp
  next
    case False
    with that have "r \<in> set [i + 1..<n]" by simp
    with rest show ?thesis by blast
  qed
  moreover from mem assms have "i \<le> ?mx \<and> ?mx < n"
    by auto
  ultimately show ?thesis by blast
qed

lemma fold_row_update:
  assumes "j < length M" and "i \<noteq> j"
  shows "m \<le> length (M ! j) \<Longrightarrow>
    (let M' = fold (\<lambda>k M. M[j := (M ! j)[k := M ! j ! k - f * M ! i ! k]]) [i..<m] M
     in length M' = length M \<and> (\<forall>r. r \<noteq> j \<longrightarrow> M' ! r = M ! r) \<and>
        length (M' ! j) = length (M ! j) \<and>
        (\<forall>k. M' ! j ! k = (if i \<le> k \<and> k < m then M ! j ! k - f * M ! i ! k else M ! j ! k)))"
proof (induction m)
  case 0
  then show ?case by simp
next
  case (Suc m)
  show ?case
  proof (cases "i \<le> m")
    case False
    then show ?thesis by (auto simp: Let_def)
  next
    case True
    define M' where "M' = fold (\<lambda>k M. M[j := (M ! j)[k := M ! j ! k - f * M ! i ! k]]) [i..<m] M"
    from Suc have IH: "length M' = length M" "\<forall>r. r \<noteq> j \<longrightarrow> M' ! r = M ! r"
      "length (M' ! j) = length (M ! j)"
      "\<forall>k. M' ! j ! k = (if i \<le> k \<and> k < m then M ! j ! k - f * M ! i ! k else M ! j ! k)"
      by (simp_all add: Let_def M'_def)
    have step: "fold (\<lambda>k M. M[j := (M ! j)[k := M ! j ! k - f * M ! i ! k]]) [i..<Suc m] M
                  = M'[j := (M' ! j)[m := M' ! j ! m - f * M' ! i ! m]]"
      using True by (simp add: M'_def)
    have mj: "M' ! j ! m = M ! j ! m" and mi: "M' ! i = M ! i"
      using IH(2,4) assms(2) by simp_all
    have lt: "m < length (M' ! j)" "j < length M'"
      using Suc.prems IH(1,3) assms(1) by simp_all
    show ?thesis
      unfolding Let_def step using IH lt assms True
      by (auto simp: mj mi nth_list_update less_Suc_eq)
  qed
qed


lemma eliminateRow_result:
  assumes sq: "squareMatrix n A" and lenB: "length B = n"
    and i: "i < n" and j: "j < n" and ij: "i \<noteq> j"
  shows "squareMatrix n (fst (eliminateRow n i j (A, B))) \<and>
         length (snd (eliminateRow n i j (A, B))) = n \<and>
         (\<forall>r<n. r \<noteq> j \<longrightarrow> fst (eliminateRow n i j (A, B)) ! r = A ! r \<and>
                            snd (eliminateRow n i j (A, B)) ! r = B ! r) \<and>
         (\<forall>k<n. fst (eliminateRow n i j (A, B)) ! j ! k =
                   (if i \<le> k then A ! j ! k - A ! j ! i / A ! i ! i * A ! i ! k else A ! j ! k)) \<and>
         snd (eliminateRow n i j (A, B)) ! j = B ! j - A ! j ! i / A ! i ! i * B ! i"
proof -
  define f where "f = A ! j ! i / A ! i ! i"
  define A' where "A' = fold (\<lambda>k M. M[j := (M ! j)[k := M ! j ! k - f * M ! i ! k]]) [i..<n] A"
  have res: "eliminateRow n i j (A, B) = (A', B[j := B ! j - f * B ! i])"
    by (simp add: eliminateRow_def Let_def f_def A'_def)
  from sq j have "j < length A" "n \<le> length (A ! j)"
    by (simp_all add: squareMatrix_def)
  from fold_row_update [OF this(1) ij this(2), of f]
  have A': "length A' = length A" "\<forall>r. r \<noteq> j \<longrightarrow> A' ! r = A ! r"
    "length (A' ! j) = length (A ! j)"
    "\<forall>k. A' ! j ! k = (if i \<le> k \<and> k < n then A ! j ! k - f * A ! i ! k else A ! j ! k)"
    by (simp_all add: Let_def A'_def)
  have "squareMatrix n A'"
    unfolding squareMatrix_def
  proof (intro conjI allI impI)
    show "length A' = n"
      using A'(1) sq by (simp add: squareMatrix_def)
    fix r assume "r < n"
    with sq A'(2,3) show "length (A' ! r) = n"
      by (cases "r = j") (simp_all add: squareMatrix_def)
  qed
  moreover have "\<forall>k<n. A' ! j ! k = (if i \<le> k then A ! j ! k - f * A ! i ! k else A ! j ! k)"
    using A'(4) by simp
  ultimately show ?thesis
    unfolding res using A'(2) lenB j by (simp add: f_def)
qed

lemma eliminatedD:
  assumes "eliminated n i m (A, B) (A', B')"
  shows "squareMatrix n A'" and "length B' = n"
    and "\<And>r. r < n \<Longrightarrow> \<not> (i < r \<and> r < m) \<Longrightarrow> A' ! r = A ! r \<and> B' ! r = B ! r"
    and "\<And>r. r < n \<Longrightarrow> i < r \<and> r < m \<Longrightarrow>
        (\<forall>k<n. A' ! r ! k = (if i \<le> k then A ! r ! k - A ! r ! i / A ! i ! i * A ! i ! k else A ! r ! k)) \<and>
        B' ! r = B ! r - A ! r ! i / A ! i ! i * B ! i"
  using assms unfolding eliminated_def fst_conv snd_conv by blast+

lemma eliminated_start:
  "squareMatrix n A \<Longrightarrow> length B = n \<Longrightarrow> eliminated n i (Suc i) (A, B) (A, B)"
  unfolding eliminated_def fst_conv snd_conv by auto

lemma eliminated_step:
  assumes sq: "squareMatrix n A" and lenB: "length B = n"
    and im: "i < m" and mn: "m < n"
    and el: "eliminated n i m (A, B) AB'"
  shows "eliminated n i (Suc m) (A, B) (eliminateRow n i m AB')"
proof -
  obtain A' B' where AB': "AB' = (A', B')"
    by (cases AB')
  note el' = el [unfolded AB']
  note sq' = eliminatedD(1) [OF el'] and lenB' = eliminatedD(2) [OF el']
    and rows = eliminatedD(3) [OF el'] and fin = eliminatedD(4) [OF el']
  have i: "i < n" and neq: "i \<noteq> m"
    using im mn by simp_all
  have same: "A' ! i = A ! i" "B' ! i = B ! i" "A' ! m = A ! m" "B' ! m = B ! m"
    using rows [of i] rows [of m] i mn by simp_all
  note R = eliminateRow_result [OF sq' lenB' i mn neq]
  let ?E = "eliminateRow n i m (A', B')"
  have new: "(\<forall>k<n. fst ?E ! m ! k =
                   (if i \<le> k then A ! m ! k - A ! m ! i / A ! i ! i * A ! i ! k else A ! m ! k)) \<and>
             snd ?E ! m = B ! m - A ! m ! i / A ! i ! i * B ! i"
    using R unfolding same by blast
  have keep: "fst ?E ! r = A' ! r \<and> snd ?E ! r = B' ! r" if "r < n" "r \<noteq> m" for r
    using R that by blast
  have "(\<forall>k<n. fst ?E ! r ! k =
                   (if i \<le> k then A ! r ! k - A ! r ! i / A ! i ! i * A ! i ! k else A ! r ! k)) \<and>
        snd ?E ! r = B ! r - A ! r ! i / A ! i ! i * B ! i" if r: "r < n" "i < r \<and> r < Suc m" for r
  proof (cases "r = m")
    case True
    with new show ?thesis by blast
  next
    case False
    with r(2) have "i < r \<and> r < m" by simp
    from fin [OF r(1) this] keep [OF r(1) False] show ?thesis
      by presburger
  qed
  moreover have "fst ?E ! r = A ! r \<and> snd ?E ! r = B ! r"
    if r: "r < n" "\<not> (i < r \<and> r < Suc m)" for r
  proof -
    from r(2) im have "r \<noteq> m" "\<not> (i < r \<and> r < m)" by auto
    from rows [OF r(1) this(2)] keep [OF r(1) this(1)] show ?thesis
      by presburger
  qed
  ultimately show ?thesis
    using R unfolding eliminated_def AB' fst_conv snd_conv by blast
qed

lemma eliminated_fold:
  assumes sq: "squareMatrix n A" and lenB: "length B = n"
  shows "i < m \<Longrightarrow> m \<le> n \<Longrightarrow>
         eliminated n i m (A, B) (fold (eliminateRow n i) [i + 1..<m] (A, B))"
proof (induction m)
  case 0
  then show ?case by simp
next
  case (Suc m)
  show ?case
  proof (cases "i < m")
    case False
    with Suc.prems have "m = i" by simp
    then show ?thesis
      using eliminated_start [OF sq lenB, of i] by simp
  next
    case True
    with Suc have "eliminated n i m (A, B) (fold (eliminateRow n i) [i + 1..<m] (A, B))"
      by simp
    from eliminated_step [OF sq lenB True _ this] Suc.prems True show ?thesis
      by simp
  qed
qed


subsection \<open>One round of the elimination keeps the solutions\<close>

lemma length_swap [simp]: "length (swap xs i mx) = length xs"
  by (simp add: swap_def)

lemma swap_nth:
  "i < length xs \<Longrightarrow> mx < length xs \<Longrightarrow> r < length xs \<Longrightarrow>
   swap xs i mx ! r = (if r = mx then xs ! i else if r = i then xs ! mx else xs ! r)"
  by (simp add: swap_def nth_list_update)

lemma swap_all:
  assumes "length xs = n" and "length ys = n" and "i < n" and "mx < n"
  shows "(\<forall>r<n. Q (swap xs i mx ! r) (swap ys i mx ! r)) \<longleftrightarrow> (\<forall>r<n. Q (xs ! r) (ys ! r))"
proof
  assume L: "\<forall>r<n. Q (swap xs i mx ! r) (swap ys i mx ! r)"
  show "\<forall>r<n. Q (xs ! r) (ys ! r)"
  proof (intro allI impI)
    fix r assume r: "r < n"
    define r' where "r' = (if r = i then mx else if r = mx then i else r)"
    have "r' < n"
      using r assms(3,4) by (simp add: r'_def)
    with L have "Q (swap xs i mx ! r') (swap ys i mx ! r')"
      by blast
    moreover have "swap xs i mx ! r' = xs ! r" "swap ys i mx ! r' = ys ! r"
      using assms r by (auto simp: swap_nth r'_def)
    ultimately show "Q (xs ! r) (ys ! r)"
      by simp
  qed
next
  assume R: "\<forall>r<n. Q (xs ! r) (ys ! r)"
  show "\<forall>r<n. Q (swap xs i mx ! r) (swap ys i mx ! r)"
  proof (intro allI impI)
    fix r assume r: "r < n"
    with R assms show "Q (swap xs i mx ! r) (swap ys i mx ! r)"
      by (simp add: swap_nth)
  qed
qed

lemma rowDot_subtract:
  assumes "\<forall>k<n. row' ! k = row ! k - f * piv ! k"
  shows "rowDot n row' x = rowDot n row x - f * rowDot n piv x"
proof -
  have "row' ! k * x ! k = row ! k * x ! k - f * (piv ! k * x ! k)" if "k < n" for k
  proof -
    from assms that have eq: "row' ! k = row ! k - f * piv ! k"
      by blast
    show ?thesis
      unfolding eq by (simp add: algebra_simps)
  qed
  then have "rowDot n row' x = (\<Sum>k<n. row ! k * x ! k - f * (piv ! k * x ! k))"
    unfolding rowDot_def by (intro sum.cong refl) simp
  then show ?thesis
    by (simp add: rowDot_def sum_subtractf sum_distrib_left)
qed

lemma elimination_equiv:
  fixes a a' b b' f :: "nat \<Rightarrow> real"
  assumes i: "i < n"
    and keep: "\<And>r. r < n \<Longrightarrow> \<not> i < r \<Longrightarrow> a' r = a r \<and> b' r = b r"
    and elim: "\<And>r. r < n \<Longrightarrow> i < r \<Longrightarrow> a' r = a r - f r * a i \<and> b' r = b r - f r * b i"
  shows "(\<forall>r<n. a' r = b' r) \<longleftrightarrow> (\<forall>r<n. a r = b r)"
proof
  assume L: "\<forall>r<n. a' r = b' r"
  from keep [OF i] L i have piv: "a i = b i"
    by simp
  show "\<forall>r<n. a r = b r"
  proof (intro allI impI)
    fix r assume r: "r < n"
    show "a r = b r"
    proof (cases "i < r")
      case False
      with keep [OF r] L r show ?thesis by simp
    next
      case True
      from elim [OF r True] L r have "a r - f r * a i = b r - f r * b i"
        by simp
      with piv show ?thesis by simp
    qed
  qed
next
  assume R: "\<forall>r<n. a r = b r"
  show "\<forall>r<n. a' r = b' r"
  proof (intro allI impI)
    fix r assume r: "r < n"
    show "a' r = b' r"
    proof (cases "i < r")
      case False
      with keep [OF r] R r show ?thesis by simp
    next
      case True
      from elim [OF r True] R r i show ?thesis by simp
    qed
  qed
qed


lemma eliminateColumn_step:
  assumes red: "reduced n i A" and lenB: "length B = n" and i: "i < n"
  shows "reduced n (Suc i) (fst (eliminateColumn n i (A, B)))"
    and "length (snd (eliminateColumn n i (A, B))) = n"
    and "(\<forall>r<n. rowDot n (fst (eliminateColumn n i (A, B)) ! r) x = snd (eliminateColumn n i (A, B)) ! r)
           \<longleftrightarrow> (\<forall>r<n. rowDot n (A ! r) x = B ! r)"
    and "(\<forall>r<n. rowDot n (fst (eliminateColumn n i (A, B)) ! r) x = 0)
           \<longleftrightarrow> (\<forall>r<n. rowDot n (A ! r) x = 0)"
proof -
  define mx where "mx = pivotRow A n i"
  define A1 where "A1 = swap A i mx"
  define B1 where "B1 = swap B i mx"
  obtain A' B' where res: "eliminateColumn n i (A, B) = (A', B')"
    by (cases "eliminateColumn n i (A, B)")
  from red have sq: "squareMatrix n A" and zero: "\<And>r c. r < n \<Longrightarrow> c < i \<Longrightarrow> c < r \<Longrightarrow> A ! r ! c = 0"
    by (simp_all add: reduced_def)
  from sq have lenA: "length A = n" and lenrow: "\<And>r. r < n \<Longrightarrow> length (A ! r) = n"
    by (simp_all add: squareMatrix_def)
  from pivotRow_max [OF i, of A] have mx: "i \<le> mx" "mx < n"
    and mxmax: "\<And>r. i \<le> r \<Longrightarrow> r < n \<Longrightarrow> \<bar>A ! r ! i\<bar> \<le> \<bar>A ! mx ! i\<bar>"
    by (simp_all add: mx_def)
  have A1: "A1 ! r = (if r = mx then A ! i else if r = i then A ! mx else A ! r)" if "r < n" for r
    unfolding A1_def using that i mx(2) lenA by (simp add: swap_nth)
  have B1: "B1 ! r = (if r = mx then B ! i else if r = i then B ! mx else B ! r)" if "r < n" for r
    unfolding B1_def using that i mx(2) lenB by (simp add: swap_nth)
  have sq1: "squareMatrix n A1"
    unfolding squareMatrix_def using A1 lenrow i mx(2) lenA by (simp add: A1_def)
  have lenB1: "length B1 = n"
    using lenB by (simp add: B1_def)
  have zero1: "A1 ! r ! c = 0" if "r < n" "c < i" "c < r" for r c
    using that zero [of r c] zero [of i c] zero [of mx c] i mx by (simp add: A1)
  have max1: "\<bar>A1 ! r ! i\<bar> \<le> \<bar>A1 ! i ! i\<bar>" if "i \<le> r" "r < n" for r
    using that mxmax [of r] mxmax [of i] mxmax [of mx] i mx by (auto simp: A1)
  have "eliminated n i n (A1, B1) (fold (eliminateRow n i) [i + 1..<n] (A1, B1))"
    using sq1 lenB1 i by (intro eliminated_fold) simp_all
  then have el: "eliminated n i n (A1, B1) (A', B')"
    using res by (simp add: eliminateColumn_def Let_def mx_def A1_def B1_def)
  note sq' = eliminatedD(1) [OF el] and lenB' = eliminatedD(2) [OF el]
    and keep = eliminatedD(3) [OF el] and fin = eliminatedD(4) [OF el]
  define f where "f = (\<lambda>r. A1 ! r ! i / A1 ! i ! i)"
  have entry: "A' ! r ! k = A1 ! r ! k - f r * A1 ! i ! k" if "r < n" "i < r" "k < n" for r k
  proof (cases "i \<le> k")
    case True
    with fin [of r] that show ?thesis by (simp add: f_def)
  next
    case False
    then have "A1 ! i ! k = 0"
      using zero1 [of i k] i by simp
    with fin [of r] that False show ?thesis by simp
  qed
  have rhs: "B' ! r = B1 ! r - f r * B1 ! i" if "r < n" "i < r" for r
    using fin [of r] that by (simp add: f_def)
  have dot: "rowDot n (A' ! r) x = rowDot n (A1 ! r) x - f r * rowDot n (A1 ! i) x"
    if "r < n" "i < r" for r x
    using entry [OF that] by (intro rowDot_subtract) simp
  have same: "A' ! r = A1 ! r \<and> B' ! r = B1 ! r" if "r < n" "\<not> i < r" for r
    using keep [of r] that by simp
  show "length (snd (eliminateColumn n i (A, B))) = n"
    using lenB' by (simp add: res)
  have "(\<forall>r<n. rowDot n (A' ! r) x = B' ! r) \<longleftrightarrow> (\<forall>r<n. rowDot n (A1 ! r) x = B1 ! r)"
    using i same dot rhs by (intro elimination_equiv [where i = i and f = f]) simp_all
  also have "\<dots> \<longleftrightarrow> (\<forall>r<n. rowDot n (A ! r) x = B ! r)"
    unfolding A1_def B1_def using lenA lenB i mx(2)
    by (rule swap_all [where Q = "\<lambda>row b. rowDot n row x = b"])
  finally show "(\<forall>r<n. rowDot n (fst (eliminateColumn n i (A, B)) ! r) x = snd (eliminateColumn n i (A, B)) ! r)
           \<longleftrightarrow> (\<forall>r<n. rowDot n (A ! r) x = B ! r)"
    by (simp add: res)
  have "(\<forall>r<n. rowDot n (A' ! r) x = 0) \<longleftrightarrow> (\<forall>r<n. rowDot n (A1 ! r) x = 0)"
    using i same dot
    by (intro elimination_equiv [where i = i and f = f and b = "\<lambda>r. 0" and b' = "\<lambda>r. 0"]) simp_all
  also have "\<dots> \<longleftrightarrow> (\<forall>r<n. rowDot n (A ! r) x = 0)"
    unfolding A1_def using lenA lenA i mx(2)
    by (rule swap_all [where Q = "\<lambda>row b. rowDot n row x = 0" and ys = A])
  finally show "(\<forall>r<n. rowDot n (fst (eliminateColumn n i (A, B)) ! r) x = 0)
           \<longleftrightarrow> (\<forall>r<n. rowDot n (A ! r) x = 0)"
    by (simp add: res)
  have "A' ! r ! c = 0" if "r < n" "c < Suc i" "c < r" for r c
  proof (cases "c < i")
    case True
    show ?thesis
    proof (cases "i < r")
      case False
      with same [OF that(1)] zero1 [OF that(1) True that(3)] show ?thesis by simp
    next
      case r: True
      have "c < n" using True i by simp
      from entry [OF that(1) r this] zero1 [OF that(1) True that(3)] zero1 [of i c] True i
      show ?thesis by simp
    qed
  next
    case False
    with that have c: "c = i" and r: "i < r" by simp_all
    have "A' ! r ! i = A1 ! r ! i - A1 ! r ! i / A1 ! i ! i * A1 ! i ! i"
      using entry [OF that(1) r i] by (simp add: f_def)
    moreover have "A1 ! r ! i = 0" if "A1 ! i ! i = 0"
      using max1 [of r] r \<open>r < n\<close> that by simp
    ultimately show ?thesis
      unfolding c by (cases "A1 ! i ! i = 0") simp_all
  qed
  with sq' show "reduced n (Suc i) (fst (eliminateColumn n i (A, B)))"
    by (simp add: reduced_def res)
qed


lemma elimination_fold:
  assumes sq: "squareMatrix n A" and lenB: "length B = n"
  shows "m \<le> n \<Longrightarrow>
     reduced n m (fst (fold (eliminateColumn n) [0..<m] (A, B))) \<and>
     length (snd (fold (eliminateColumn n) [0..<m] (A, B))) = n \<and>
     (\<forall>x. (\<forall>r<n. rowDot n (fst (fold (eliminateColumn n) [0..<m] (A, B)) ! r) x
                    = snd (fold (eliminateColumn n) [0..<m] (A, B)) ! r)
            \<longleftrightarrow> (\<forall>r<n. rowDot n (A ! r) x = B ! r)) \<and>
     (\<forall>x. (\<forall>r<n. rowDot n (fst (fold (eliminateColumn n) [0..<m] (A, B)) ! r) x = 0)
            \<longleftrightarrow> (\<forall>r<n. rowDot n (A ! r) x = 0))"
proof (induction m)
  case 0
  from sq show ?case
    using lenB by (simp add: reduced_def)
next
  case (Suc m)
  define AB' where "AB' = fold (eliminateColumn n) [0..<m] (A, B)"
  have step: "fold (eliminateColumn n) [0..<Suc m] (A, B) = eliminateColumn n m (fst AB', snd AB')"
    by (simp add: AB'_def)
  from Suc have red: "reduced n m (fst AB')" and len: "length (snd AB') = n"
    and sol: "\<And>x. (\<forall>r<n. rowDot n (fst AB' ! r) x = snd AB' ! r) \<longleftrightarrow> (\<forall>r<n. rowDot n (A ! r) x = B ! r)"
    and ker: "\<And>x. (\<forall>r<n. rowDot n (fst AB' ! r) x = 0) \<longleftrightarrow> (\<forall>r<n. rowDot n (A ! r) x = 0)"
    unfolding AB'_def by simp_all
  from Suc.prems have m: "m < n" by simp
  note S = eliminateColumn_step [OF red len m]
  show ?case
    unfolding step using S(1,2) S(3) [unfolded sol] S(4) [unfolded ker] by blast
qed

subsection \<open>Back substitution\<close>

lemma sum_split_at:
  fixes g :: "nat \<Rightarrow> real"
  assumes "i < n"
  shows "(\<Sum>k<n. g k) = (\<Sum>k<i. g k) + g i + (\<Sum>k = Suc i..<n. g k)"
proof -
  have "(\<Sum>k<n. g k) = sum g {0..<i} + sum g {i..<n}"
    using assms by (simp add: lessThan_atLeast0 sum.atLeastLessThan_concat)
  also have "sum g {i..<n} = g i + sum g {Suc i..<n}"
    using assms by (rule sum.atLeast_Suc_lessThan)
  finally show ?thesis
    by (simp add: lessThan_atLeast0)
qed

lemma backStep_fold:
  assumes upper: "\<And>r c. r < n \<Longrightarrow> c < r \<Longrightarrow> U ! r ! c = 0"
  shows "i \<le> n \<Longrightarrow> length x0 = n \<Longrightarrow> (\<forall>c<i. U ! c ! c \<noteq> 0) \<Longrightarrow>
     length (fold (backStep n U b) (rev [0..<i]) x0) = n \<and>
     (\<forall>c. i \<le> c \<longrightarrow> fold (backStep n U b) (rev [0..<i]) x0 ! c = x0 ! c) \<and>
     (\<forall>r<i. rowDot n (U ! r) (fold (backStep n U b) (rev [0..<i]) x0) = b ! r)"
proof (induction i arbitrary: x0)
  case 0
  then show ?case by simp
next
  case (Suc i)
  define S where "S = (\<Sum>j = Suc i..<n. U ! i ! j * x0 ! j)"
  define x1 where "x1 = x0[i := (b ! i - S) / U ! i ! i]"
  define x where "x = fold (backStep n U b) (rev [0..<i]) x1"
  have x1: "backStep n U b i x0 = x1"
    by (simp add: backStep_def Let_def fold_add_upt S_def x1_def)
  have step: "fold (backStep n U b) (rev [0..<Suc i]) x0 = x"
    by (simp add: x1 x_def)
  from Suc.prems have i: "i < n" and piv: "U ! i ! i \<noteq> 0"
    by simp_all
  have "length x1 = n" "\<forall>c<i. U ! c ! c \<noteq> 0"
    using Suc.prems by (simp_all add: x1_def)
  with Suc.IH [of x1] i have len: "length x = n"
    and tail: "\<And>c. i \<le> c \<Longrightarrow> x ! c = x1 ! c"
    and rows: "\<And>r. r < i \<Longrightarrow> rowDot n (U ! r) x = b ! r"
    by (simp_all add: x_def)
  have xi: "x ! i = (b ! i - S) / U ! i ! i"
    using tail [of i] i Suc.prems(2) by (simp add: x1_def)
  have above: "x ! c = x0 ! c" if "Suc i \<le> c" for c
    using tail [of c] that by (simp add: x1_def)
  have "rowDot n (U ! i) x =
          (\<Sum>k<i. U ! i ! k * x ! k) + U ! i ! i * x ! i + (\<Sum>k = Suc i..<n. U ! i ! k * x ! k)"
    unfolding rowDot_def using i by (rule sum_split_at)
  also have "(\<Sum>k<i. U ! i ! k * x ! k) = 0"
    using upper [OF i] by (intro sum.neutral) simp
  also have "(\<Sum>k = Suc i..<n. U ! i ! k * x ! k) = S"
    unfolding S_def using above by (intro sum.cong refl) simp
  also have "U ! i ! i * x ! i = b ! i - S"
    using piv by (simp add: xi)
  finally have rowi: "rowDot n (U ! i) x = b ! i"
    by simp
  have "rowDot n (U ! r) x = b ! r" if "r < Suc i" for r
    using that rows [of r] rowi by (cases "r = i") simp_all
  with len above show ?case
    unfolding step by blast
qed


subsection \<open>Nonsingular systems\<close>

lemma upper_diagonal_nonzero:
  assumes upper: "\<And>r c. r < n \<Longrightarrow> c < r \<Longrightarrow> U ! r ! c = 0"
    and nonsing: "nonsingular n U"
  shows "i < n \<Longrightarrow> U ! i ! i \<noteq> 0"
proof (induction i rule: less_induct)
  case (less i)
  show ?case
  proof
    assume zero: "U ! i ! i = 0"
    define e where "e = (replicate n (0::real))[i := 1]"
    define x where "x = fold (backStep n U (replicate n 0)) (rev [0..<i]) e"
    have "\<forall>c<i. U ! c ! c \<noteq> 0"
      using less by simp
    with backStep_fold [of n U i e "replicate n 0"] upper less.prems
    have len: "length x = n" and tail: "\<And>c. i \<le> c \<Longrightarrow> x ! c = e ! c"
      and rows: "\<And>r. r < i \<Longrightarrow> rowDot n (U ! r) x = replicate n 0 ! r"
      by (simp_all add: x_def e_def)
    have "rowDot n (U ! r) x = 0" if r: "r < n" for r
    proof (cases "r < i")
      case True
      with rows [of r] r less.prems show ?thesis by simp
    next
      case False
      have "U ! r ! k * x ! k = 0" if k: "k < n" for k
      proof (cases "k < r")
        case True
        with upper [OF r] show ?thesis by simp
      next
        case kr: False
        with False have "x ! k = e ! k"
          by (intro tail) simp
        moreover have "e ! k = (if k = i then 1 else 0)"
          using k by (simp add: e_def nth_list_update)
        moreover have "r = i" if "k = i"
          using that kr False by simp
        ultimately show ?thesis
          using zero by auto
      qed
      then show ?thesis
        unfolding rowDot_def by (intro sum.neutral) simp
    qed
    with nonsing len less.prems have "x ! i = 0"
      unfolding nonsingular_def by blast
    moreover have "x ! i = 1"
      using tail [of i] less.prems by (simp add: e_def)
    ultimately show False by simp
  qed
qed

lemma rowDot_diff:
  assumes "length z = n" and "\<forall>k<n. z ! k = x ! k - y ! k"
  shows "rowDot n row z = rowDot n row x - rowDot n row y"
proof -
  have "row ! k * z ! k = row ! k * x ! k - row ! k * y ! k" if "k < n" for k
  proof -
    from assms(2) that have eq: "z ! k = x ! k - y ! k"
      by blast
    show ?thesis
      unfolding eq by (simp add: algebra_simps)
  qed
  then have "rowDot n row z = (\<Sum>k<n. row ! k * x ! k - row ! k * y ! k)"
    unfolding rowDot_def by (intro sum.cong refl) simp
  then show ?thesis
    by (simp add: rowDot_def sum_subtractf)
qed

lemma nonsingular_unique:
  assumes "nonsingular n A" and "solves n A B x" and "solves n A B y"
  shows "x = y"
proof -
  define z where "z = map (\<lambda>k. x ! k - y ! k) [0..<n]"
  have z: "length z = n" "\<forall>k<n. z ! k = x ! k - y ! k"
    by (simp_all add: z_def)
  have "rowDot n (A ! r) z = 0" if "r < n" for r
    using assms(2,3) that by (simp add: rowDot_diff [OF z] solves_def)
  with assms(1) z(1) have "\<forall>k<n. z ! k = 0"
    unfolding nonsingular_def by blast
  with z(2) have "\<forall>k<n. x ! k = y ! k"
    by simp
  moreover from assms(2,3) have "length x = n" "length y = n"
    by (simp_all add: solves_def)
  ultimately show ?thesis
    by (simp add: list_eq_iff_nth_eq)
qed

lemma solveMatrix_solves:
  assumes sq: "squareMatrix n A" and lenB: "length B = n" and nonsing: "nonsingular n A"
  shows "solves n A B (solveMatrix A B)"
proof -
  define U where "U = fst (fold (eliminateColumn n) [0..<n] (A, B))"
  define B' where "B' = snd (fold (eliminateColumn n) [0..<n] (A, B))"
  define x where "x = fold (backStep n U B') (rev [0..<n]) (replicate n 0)"
  have res: "solveMatrix A B = x"
    by (simp add: solveMatrix_def Let_def lenB U_def B'_def x_def)
  from elimination_fold [OF sq lenB, of n]
  have red: "reduced n n U"
    and sol: "\<And>x. (\<forall>r<n. rowDot n (U ! r) x = B' ! r) \<longleftrightarrow> (\<forall>r<n. rowDot n (A ! r) x = B ! r)"
    and ker: "\<And>x. (\<forall>r<n. rowDot n (U ! r) x = 0) \<longleftrightarrow> (\<forall>r<n. rowDot n (A ! r) x = 0)"
    by (simp_all add: U_def B'_def)
  from red have upper: "\<And>r c. r < n \<Longrightarrow> c < r \<Longrightarrow> U ! r ! c = 0"
    by (simp add: reduced_def)
  from nonsing have "nonsingular n U"
    unfolding nonsingular_def ker .
  with upper have "\<forall>c<n. U ! c ! c \<noteq> 0"
    using upper_diagonal_nonzero [of n U] by blast
  with backStep_fold [of n U n "replicate n 0" B'] upper
  have "length x = n" "\<forall>r<n. rowDot n (U ! r) x = B' ! r"
    by (simp_all add: x_def)
  then show ?thesis
    unfolding res solves_def sol by blast
qed

text \<open>
  C2: for every \<open>n\<close>, every nonsingular \<open>n\<close>-by-\<open>n\<close> real matrix \<open>A\<close> and every real
  vector \<open>B\<close> of length \<open>n\<close>, \<open>solveMatrix\<close> (Gaussian elimination with partial
  pivoting, then back substitution, over exact reals) returns the one vector \<open>x\<close> of
  length \<open>n\<close> with \<open>A \<cdot> x = B\<close>.
\<close>

theorem solveMatrix_unique_solution:
  "squareMatrix n A \<Longrightarrow> length B = n \<Longrightarrow> nonsingular n A \<Longrightarrow>
   solves n A B (solveMatrix A B) \<and> (\<forall>x. solves n A B x \<longrightarrow> x = solveMatrix A B)"
proof -
  assume sq: "squareMatrix n A" and lenB: "length B = n" and nonsing: "nonsingular n A"
  have "solves n A B (solveMatrix A B)"
    using sq lenB nonsing by (rule solveMatrix_solves)
  moreover from this have "x = solveMatrix A B" if "solves n A B x" for x
    using nonsingular_unique [OF nonsing that] by blast
  ultimately show ?thesis by blast
qed


lemma squareMatrix_system2: "squareMatrix 2 system2A"
  by (simp add: squareMatrix_def system2A_def less_Suc_eq numeral_2_eq_2)

lemma nonsingular_system2: "nonsingular 2 system2A"
  unfolding nonsingular_def
proof (intro allI impI, elim conjE)
  fix x :: "real list" and k :: nat
  assume len: "length x = 2" and ker: "\<forall>r<2. rowDot 2 (system2A ! r) x = 0" and k: "k < 2"
  from len obtain a b where x: "x = [a, b]"
    by (cases x; cases "tl x") auto
  from ker have "rowDot 2 (system2A ! 0) x = 0" "rowDot 2 (system2A ! 1) x = 0"
    by simp_all
  then have "a + 2 * b = 0" "3 * a + 4 * b = 0"
    by (simp_all add: rowDot_def system2A_def x lessThan_Suc numeral_2_eq_2)
  then have "a = 0" "b = 0"
    by simp_all
  with k show "x ! k = 0"
    by (cases k) (simp_all add: x)
qed

lemma solveMatrix_system2: "solveMatrix system2A system2B = [- 4, 9 / 2]"
  by (simp add: solveMatrix_def eliminateColumn_def pivotRow_def swap_def eliminateRow_def
      backStep_def Let_def system2A_def system2B_def upt_rec)

theorem solveMatrix_unique_solution_witness:
  "squareMatrix 2 system2A \<and> length system2B = 2 \<and> nonsingular 2 system2A \<and>
   solveMatrix system2A system2B = [- 4, 9 / 2] \<and>
   {x. solves 2 system2A system2B x} = {[- 4, 9 / 2]}"
proof -
  have len: "length system2B = 2"
    by (simp add: system2B_def)
  from solveMatrix_unique_solution [OF squareMatrix_system2 len nonsingular_system2]
  have "solves 2 system2A system2B [- 4, 9 / 2] \<and>
        (\<forall>x. solves 2 system2A system2B x \<longrightarrow> x = [- 4, 9 / 2])"
    unfolding solveMatrix_system2 .
  then have "{x. solves 2 system2A system2B x} = {[- 4, 9 / 2]}"
    by blast
  with squareMatrix_system2 len nonsingular_system2 solveMatrix_system2 show ?thesis
    by blast
qed

subsection \<open>No division by zero\<close>

lemma eliminateColumn_rows:
  assumes sq: "squareMatrix n A" and lenB: "length B = n" and i: "i < n"
  shows "fst (eliminateColumn n i (A, B)) ! i = A ! pivotRow A n i"
    and "r < i \<Longrightarrow> fst (eliminateColumn n i (A, B)) ! r = A ! r"
proof -
  define mx where "mx = pivotRow A n i"
  obtain A' B' where res: "eliminateColumn n i (A, B) = (A', B')"
    by (cases "eliminateColumn n i (A, B)")
  from pivotRow_max [OF i, of A] have mx: "i \<le> mx" "mx < n"
    by (simp_all add: mx_def)
  from sq have lenA: "length A = n"
    by (simp add: squareMatrix_def)
  have sq1: "squareMatrix n (swap A i mx)"
    unfolding squareMatrix_def using sq i mx(2) by (simp add: swap_nth squareMatrix_def)
  have "eliminated n i n (swap A i mx, swap B i mx)
          (fold (eliminateRow n i) [i + 1..<n] (swap A i mx, swap B i mx))"
    using sq1 lenB i by (intro eliminated_fold) simp_all
  then have el: "eliminated n i n (swap A i mx, swap B i mx) (A', B')"
    using res by (simp add: eliminateColumn_def Let_def mx_def)
  from eliminatedD(3) [OF el, of i] i have "A' ! i = swap A i mx ! i"
    by simp
  then show "fst (eliminateColumn n i (A, B)) ! i = A ! pivotRow A n i"
    using i mx(2) lenA by (simp add: res swap_nth mx_def)
  assume r: "r < i"
  with eliminatedD(3) [OF el, of r] i have "A' ! r = swap A i mx ! r"
    by simp
  then show "fst (eliminateColumn n i (A, B)) ! r = A ! r"
    using r i mx lenA by (simp add: res swap_nth)
qed

lemma elimination_keeps_row:
  assumes sq: "squareMatrix n A" and lenB: "length B = n"
  shows "i < m \<Longrightarrow> m \<le> n \<Longrightarrow>
     fst (fold (eliminateColumn n) [0..<m] (A, B)) ! i =
     fst (fold (eliminateColumn n) [0..<Suc i] (A, B)) ! i"
proof (induction m)
  case 0
  then show ?case by simp
next
  case (Suc m)
  show ?case
  proof (cases "i < m")
    case False
    with Suc.prems have "m = i" by simp
    then show ?thesis by simp
  next
    case True
    define AB' where "AB' = fold (eliminateColumn n) [0..<m] (A, B)"
    from Suc.prems have m: "m < n" by simp
    from elimination_fold [OF sq lenB, of m] m
    have "squareMatrix n (fst AB')" "length (snd AB') = n"
      by (simp_all add: AB'_def reduced_def)
    from eliminateColumn_rows(2) [OF this m True]
    have "fst (fold (eliminateColumn n) [0..<Suc m] (A, B)) ! i = fst AB' ! i"
      by (simp add: AB'_def)
    with Suc.IH [OF True] m show ?thesis
      by (simp add: AB'_def)
  qed
qed

text \<open>
  Every division of \<open>solveMatrix\<close> is by an entry \<open>A[i][i]\<close>: in round \<open>i\<close> of the
  elimination it is the pivot that the search has just moved into row \<open>i\<close>, and in
  the back substitution it is the diagonal entry of the final matrix. For a nonsingular
  matrix none of them is zero, so the result above does not depend on the value HOL
  gives to a division by zero.
\<close>

lemma solveMatrix_divisors_nonzero:
  assumes sq: "squareMatrix n A" and lenB: "length B = n" and nonsing: "nonsingular n A"
    and i: "i < n"
  shows "fst (fold (eliminateColumn n) [0..<i] (A, B))
           ! pivotRow (fst (fold (eliminateColumn n) [0..<i] (A, B))) n i ! i \<noteq> 0"
    and "fst (fold (eliminateColumn n) [0..<n] (A, B)) ! i ! i \<noteq> 0"
proof -
  define M where "M = fold (eliminateColumn n) [0..<i] (A, B)"
  define U where "U = fst (fold (eliminateColumn n) [0..<n] (A, B))"
  from elimination_fold [OF sq lenB, of n]
  have red: "reduced n n U"
    and ker: "\<And>x. (\<forall>r<n. rowDot n (U ! r) x = 0) \<longleftrightarrow> (\<forall>r<n. rowDot n (A ! r) x = 0)"
    by (simp_all add: U_def)
  from red have upper: "\<And>r c. r < n \<Longrightarrow> c < r \<Longrightarrow> U ! r ! c = 0"
    by (simp add: reduced_def)
  from nonsing have "nonsingular n U"
    unfolding nonsingular_def ker .
  with upper i show diag: "fst (fold (eliminateColumn n) [0..<n] (A, B)) ! i ! i \<noteq> 0"
    unfolding U_def [symmetric] by (intro upper_diagonal_nonzero [of n U]) simp_all
  from elimination_fold [OF sq lenB, of i] i
  have "squareMatrix n (fst M)" "length (snd M) = n"
    by (simp_all add: M_def reduced_def)
  from eliminateColumn_rows(1) [OF this i]
  have "fst (fold (eliminateColumn n) [0..<Suc i] (A, B)) ! i = fst M ! pivotRow (fst M) n i"
    by (simp add: M_def)
  moreover from elimination_keeps_row [OF sq lenB, of i n] i
  have "U ! i = fst (fold (eliminateColumn n) [0..<Suc i] (A, B)) ! i"
    by (simp add: U_def)
  ultimately have "fst M ! pivotRow (fst M) n i = U ! i"
    by simp
  with diag show "fst (fold (eliminateColumn n) [0..<i] (A, B))
           ! pivotRow (fst (fold (eliminateColumn n) [0..<i] (A, B))) n i ! i \<noteq> 0"
    by (simp add: M_def U_def)
qed

end
